theory Spec2Isabelle
  imports Complex_Main "HOL-Library.Word"
begin

section \<open>Strings and plain objects of the host language\<close>

text \<open>
  A JavaScript string is a sequence of UTF-16 code units; \<open>length\<close>, \<open>charAt\<close> and
  the regular expressions of the source all work on code units.
\<close>

type_synonym jschar = "16 word"
type_synonym jsstring = "jschar list"

definition js :: "string \<Rightarrow> jsstring" where
  \<comment> \<open>the JavaScript string with the given (Latin-1) characters\<close>
  "js s = map (\<lambda>c. of_nat (of_char c)) s"

text \<open>
  \<open>{}\<close> is not an empty dictionary: it inherits the properties of \<open>Object.prototype\<close>,
  so \<open>counts[key]\<close> is not \<open>undefined\<close> for the names below.
\<close>

definition object_prototype_names :: "jsstring list" where
  "object_prototype_names =
     [js ''constructor'', js ''__defineGetter__'', js ''__defineSetter__'',
      js ''hasOwnProperty'', js ''__lookupGetter__'', js ''__lookupSetter__'',
      js ''isPrototypeOf'', js ''propertyIsEnumerable'', js ''toString'',
      js ''valueOf'', js ''__proto__'', js ''toLocaleString'']"

definition proto_name :: "jsstring \<Rightarrow> bool" where
  "proto_name k = (k \<in> set object_prototype_names)"

section \<open>Header de-duplication: \<open>uniquify\<close>\<close>

text \<open>
  \<open>uniquify\<close> (lines 86 to 105 of the source) counts the keys in an object literal, then
  renames them from the last to the first. What \<open>counts[key]\<close> can hold: nothing, a function or object inherited from
  \<open>Object.prototype\<close>, \<open>NaN\<close> (the result of \<open>++\<close> on an inherited member), or a count.
\<close>

datatype count = Undefined | Inherited | NaN | Number nat

type_synonym counts = "jsstring \<Rightarrow> count"

definition empty_object :: counts where
  "empty_object = (\<lambda>k. if proto_name k then Inherited else Undefined)"

definition put :: "counts \<Rightarrow> jsstring \<Rightarrow> count \<Rightarrow> counts" where
  \<comment> \<open>\<open>counts[key] = v\<close> for a number \<open>v\<close>: the \<open>__proto__\<close> setter ignores a number\<close>
  "put c key v = (if key = js ''__proto__'' then c else c(key := v))"

fun count_keys :: "jsstring list \<Rightarrow> counts \<Rightarrow> counts" where
  \<comment> \<open>the first loop of \<open>uniquify\<close>\<close>
  "count_keys [] c = c"
| "count_keys (key # keys) c =
     count_keys keys
       (case c key of
          Undefined \<Rightarrow> put c key (Number 0)
        | Number n \<Rightarrow> put c key (Number (n + 1))
        | _ \<Rightarrow> put c key NaN)"

definition digit :: "nat \<Rightarrow> jschar" where
  "digit d = of_nat (48 + d)"

fun number_to_string :: "nat \<Rightarrow> jsstring" where
  \<comment> \<open>\<open>'' + n\<close> for a non-negative integer below \<open>10^21\<close>: its decimal digits\<close>
  "number_to_string n =
     (if n < 10 then [digit n] else number_to_string (n div 10) @ [digit (n mod 10)])"

declare number_to_string.simps [simp del]

definition string_to_number :: "jsstring \<Rightarrow> nat" where
  \<comment> \<open>the number that a string of decimal digits denotes\<close>
  "string_to_number s = foldl (\<lambda>a c. 10 * a + (unat c - 48)) 0 s"

fun rename_keys :: "jsstring list \<Rightarrow> counts \<Rightarrow> jsstring list \<Rightarrow> jsstring list" where
  \<comment> \<open>the second loop of \<open>uniquify\<close>, on the keys from the last to the first\<close>
  "rename_keys [] c result = result"
| "rename_keys (key # keys) c result =
     (case c key of
        Number (Suc n) \<Rightarrow>
          rename_keys keys (put c key (Number n))
            ((key @ js ''__'' @ number_to_string (Suc n)) # result)
      | _ \<Rightarrow> rename_keys keys c (key # result))"

definition uniquify :: "jsstring list \<Rightarrow> jsstring list" where
  "uniquify keys = rename_keys (rev keys) (count_keys keys empty_object) []"

section \<open>The generated parser\<close>

text \<open>
  The parser generated by PEG.js (lines 172 to 959): the cursor \<open>pos\<close> and the record of the
  rightmost failure are its state, threaded through every rule; \<open>reportFailures\<close> stays 0.
  Each rule returns its result, \<open>None\<close> for \<open>null\<close>, with the new state. The five
  descriptions that \<open>matchFailed\<close> records are:
\<close>

datatype expectation =
    ExpQuote          \<comment> \<open>\<open>"\""\<close>\<close>
  | ExpLineBreak      \<comment> \<open>\<open>[\n\r]\<close>\<close>
  | ExpNotQuote       \<comment> \<open>\<open>[^"]\<close>\<close>
  | ExpNotLineBreak   \<comment> \<open>\<open>[^\n\r]\<close>\<close>
  | ExpAnyCharacter   \<comment> \<open>\<open>any character\<close>\<close>

record pstate =
  pos :: nat
  rightmostFailuresPos :: nat
  rightmostFailuresExpected :: "expectation list"

definition charAt :: "jsstring \<Rightarrow> nat \<Rightarrow> jschar option" where
  \<comment> \<open>\<open>None\<close> is the empty string that \<open>charAt\<close> returns beyond the end\<close>
  "charAt input p = (if p < length input then Some (input ! p) else None)"

definition matchFailed :: "expectation \<Rightarrow> pstate \<Rightarrow> pstate" where
  "matchFailed failure st =
     (if pos st < rightmostFailuresPos st then st
      else
        (let st1 = (if pos st > rightmostFailuresPos st
                    then st\<lparr>rightmostFailuresPos := pos st, rightmostFailuresExpected := []\<rparr>
                    else st)
         in st1\<lparr>rightmostFailuresExpected := rightmostFailuresExpected st1 @ [failure]\<rparr>))"

definition parse_char :: "jsstring \<Rightarrow> pstate \<Rightarrow> jschar option \<times> pstate" where
  "parse_char input st =
     (let pos0 = pos st;
          (result0, st1) =
            (if charAt input (pos st) = Some 0x22 then
               (let st' = st\<lparr>pos := pos st + 1\<rparr> in
                if charAt input (pos st') = Some 0x22
                then (Some 0x22, st'\<lparr>pos := pos st' + 1\<rparr>)
                else (None, (matchFailed ExpQuote st')\<lparr>pos := pos0\<rparr>))
             else (None, matchFailed ExpQuote st))
      in case result0 of
           Some c \<Rightarrow> (Some c, st1)
         | None \<Rightarrow>
             (case charAt input (pos st1) of
                Some c \<Rightarrow>
                  if c \<noteq> 0x22 then (Some c, st1\<lparr>pos := pos st1 + 1\<rparr>)
                  else (None, matchFailed ExpNotQuote st1)
              | None \<Rightarrow> (None, matchFailed ExpNotQuote st1)))"

lemma pos_matchFailed [simp]: "pos (matchFailed failure st) = pos st"
  by (simp add: matchFailed_def Let_def)

lemma parse_char_progress:
  "parse_char input st = (Some c, st') \<Longrightarrow> pos st < pos st' \<and> pos st < length input"
  by (auto simp: parse_char_def Let_def charAt_def split: if_splits option.splits)

function chars_loop :: "jsstring \<Rightarrow> pstate \<Rightarrow> jsstring \<Rightarrow> jsstring \<times> pstate" where
  "chars_loop input st acc =
     (case parse_char input st of
        (Some c, st') \<Rightarrow> chars_loop input st' (acc @ [c])
      | (None, st') \<Rightarrow> (acc, st'))"
  by pat_completeness auto
termination
  by (relation "measure (\<lambda>(input, st, acc). length input - pos st)")
     (auto dest!: parse_char_progress[OF sym])

declare chars_loop.simps [simp del]

function unquoted_loop :: "jsstring \<Rightarrow> jschar \<Rightarrow> pstate \<Rightarrow> jsstring \<Rightarrow> jsstring \<times> pstate" where
  "unquoted_loop input separator st acc =
     (case charAt input (pos st) of
        Some c \<Rightarrow>
          if c \<noteq> 0x0A \<and> c \<noteq> 0x0D then
            (if c \<noteq> separator
             then unquoted_loop input separator (st\<lparr>pos := pos st + 1\<rparr>) (acc @ [c])
             else (acc, st))
          else (acc, matchFailed ExpNotLineBreak st)
      | None \<Rightarrow> (acc, matchFailed ExpNotLineBreak st))"
  by pat_completeness auto
termination
  by (relation "measure (\<lambda>(input, separator, st, acc). length input - pos st)")
     (auto simp: charAt_def split: if_splits)

declare unquoted_loop.simps [simp del]

definition parse_field :: "jsstring \<Rightarrow> jschar \<Rightarrow> pstate \<Rightarrow> jsstring option \<times> pstate" where
  "parse_field input separator st =
     (let pos0 = pos st;
          (result0, st1) =
            (if charAt input (pos st) = Some 0x22 then
               (let (result1, st2) = chars_loop input (st\<lparr>pos := pos st + 1\<rparr>) [] in
                if charAt input (pos st2) = Some 0x22
                then (Some result1, st2\<lparr>pos := pos st2 + 1\<rparr>)
                else (None, (matchFailed ExpQuote st2)\<lparr>pos := pos0\<rparr>))
             else (None, matchFailed ExpQuote st))
      in case result0 of
           Some text \<Rightarrow> (Some text, st1)
         | None \<Rightarrow>
             (let (text, st3) = unquoted_loop input separator st1 [] in (Some text, st3)))"

lemma chars_loop_pos: "chars_loop input st acc = (r, st') \<Longrightarrow> pos st \<le> pos st'"
proof (induction input st acc arbitrary: r st' rule: chars_loop.induct)
  case (1 input st acc)
  show ?case
  proof (cases "parse_char input st")
    case (Pair res st1)
    show ?thesis
    proof (cases res)
      case None
      then have "st' = st1" using "1.prems" Pair by (simp add: chars_loop.simps[of input st])
      moreover have "pos st1 = pos st" using Pair None
        by (auto simp: parse_char_def Let_def split: if_splits option.splits)
      ultimately show ?thesis by simp
    next
      case (Some c)
      then have "chars_loop input st1 (acc @ [c]) = (r, st')"
        using "1.prems" Pair by (simp add: chars_loop.simps[of input st])
      then have "pos st1 \<le> pos st'" using "1.IH" Pair Some by simp
      moreover have "pos st < pos st1" using parse_char_progress Pair Some by blast
      ultimately show ?thesis by simp
    qed
  qed
qed

lemma unquoted_loop_pos: "unquoted_loop input sep st acc = (r, st') \<Longrightarrow> pos st \<le> pos st'"
proof (induction input sep st acc arbitrary: r st' rule: unquoted_loop.induct)
  case (1 input separator st acc)
  show ?case
    using "1.prems" "1.IH"
    by (subst (asm) unquoted_loop.simps) (auto split: option.splits if_splits dest: Suc_leD)
qed

lemma parse_field_pos: "parse_field input sep st = (r, st') \<Longrightarrow> pos st \<le> pos st'"
  by (auto simp: parse_field_def Let_def split: if_splits prod.splits option.splits
        dest!: chars_loop_pos unquoted_loop_pos)

function line_loop ::
  "jsstring \<Rightarrow> jschar \<Rightarrow> pstate \<Rightarrow> jsstring list \<Rightarrow> jsstring list \<times> pstate" where
  "line_loop input separator st acc =
     (case charAt input (pos st) of
        Some c \<Rightarrow>
          if c = separator then
            (case parse_field input separator (st\<lparr>pos := pos st + 1\<rparr>) of
               (Some text, st') \<Rightarrow> line_loop input separator st' (acc @ [text])
             | (None, st') \<Rightarrow> (acc, st'\<lparr>pos := pos st\<rparr>))
          else (acc, st)
      | None \<Rightarrow> (acc, matchFailed ExpAnyCharacter st))"
  by pat_completeness auto
termination
  by (relation "measure (\<lambda>(input, separator, st, acc). length input - pos st)")
     (auto simp: charAt_def split: if_splits dest!: parse_field_pos[OF sym])

declare line_loop.simps [simp del]

definition parse_line :: "jsstring \<Rightarrow> jschar \<Rightarrow> pstate \<Rightarrow> jsstring list option \<times> pstate" where
  "parse_line input separator st =
     (let pos0 = pos st in
      case parse_field input separator st of
        (None, st1) \<Rightarrow> (None, st1\<lparr>pos := pos0\<rparr>)
      | (Some first, st1) \<Rightarrow>
          (let (rest, st2) = line_loop input separator st1 [] in
           if first \<noteq> [] \<or> rest \<noteq> [] then (Some (first # rest), st2)
           else (None, st2\<lparr>pos := pos0\<rparr>)))"

function line_breaks :: "jsstring \<Rightarrow> pstate \<Rightarrow> pstate" where
  "line_breaks input st =
     (case charAt input (pos st) of
        Some c \<Rightarrow>
          if c = 0x0A \<or> c = 0x0D then line_breaks input (st\<lparr>pos := pos st + 1\<rparr>)
          else matchFailed ExpLineBreak st
      | None \<Rightarrow> matchFailed ExpLineBreak st)"
  by pat_completeness auto
termination
  by (relation "measure (\<lambda>(input, st). length input - pos st)")
     (auto simp: charAt_def split: if_splits)

declare line_breaks.simps [simp del]

lemma line_loop_pos: "line_loop input sep st acc = (r, st') \<Longrightarrow> pos st \<le> pos st'"
proof (induction input sep st acc arbitrary: r st' rule: line_loop.induct)
  case (1 input separator st acc)
  show ?case
  proof (cases "charAt input (pos st) = Some separator")
    case False
    then show ?thesis using "1.prems"
      by (subst (asm) line_loop.simps) (auto split: option.splits if_splits)
  next
    case True
    obtain res st1 where pf: "parse_field input separator (st\<lparr>pos := pos st + 1\<rparr>) = (res, st1)"
      by (cases "parse_field input separator (st\<lparr>pos := pos st + 1\<rparr>)")
    then have le: "pos st + 1 \<le> pos st1" using parse_field_pos by fastforce
    show ?thesis
    proof (cases res)
      case None
      then show ?thesis using "1.prems" True pf
        by (subst (asm) line_loop.simps) auto
    next
      case (Some fld)
      then have "line_loop input separator st1 (acc @ [fld]) = (r, st')"
        using "1.prems" True pf by (subst (asm) line_loop.simps) simp
      then have "pos st1 \<le> pos st'"
        by (rule "1.IH"[OF True refl pf[symmetric] Some])
      then show ?thesis using le by simp
    qed
  qed
qed

lemma parse_line_pos: "parse_line input sep st = (r, st') \<Longrightarrow> pos st \<le> pos st'"
  by (auto simp: parse_line_def Let_def split: if_splits prod.splits option.splits
        dest!: parse_field_pos line_loop_pos)

lemma line_breaks_pos: "pos st \<le> pos (line_breaks input st)"
proof (induction input st rule: line_breaks.induct)
  case (1 input st)
  show ?case
    using "1.IH"
    by (subst line_breaks.simps) (auto split: option.splits dest: Suc_leD)
qed

function sv_loop ::
  "jsstring \<Rightarrow> jschar \<Rightarrow> pstate \<Rightarrow> jsstring list list \<Rightarrow> jsstring list list \<times> pstate" where
  "sv_loop input separator st acc =
     (case charAt input (pos st) of
        Some c \<Rightarrow>
          if c = 0x0A \<or> c = 0x0D then
            (let st1 = line_breaks input (st\<lparr>pos := pos st + 1\<rparr>) in
             case parse_line input separator st1 of
               (Some data, st2) \<Rightarrow> sv_loop input separator st2 (acc @ [data])
             | (None, st2) \<Rightarrow> (acc, st2\<lparr>pos := pos st\<rparr>))
          else (acc, matchFailed ExpLineBreak st)
      | None \<Rightarrow> (acc, matchFailed ExpLineBreak st))"
  by pat_completeness auto
termination
proof (relation "measure (\<lambda>(input, separator, st, acc). length input - pos st)", goal_cases)
  case 1
  show ?case by simp
next
  case (2 input separator st acc c st1 res st2 data)
  have "pos st < length input" using 2 by (auto simp: charAt_def split: if_splits)
  moreover have "pos st + 1 \<le> pos st1"
    using 2 line_breaks_pos[of "st\<lparr>pos := pos st + 1\<rparr>" input] by simp
  moreover have "pos st1 \<le> pos st2" using 2 parse_line_pos[of input separator st1] by metis
  ultimately show ?case by simp
qed

declare sv_loop.simps [simp del]

definition parse_sv ::
  "jsstring \<Rightarrow> jschar \<Rightarrow> pstate \<Rightarrow> jsstring list list option \<times> pstate" where
  "parse_sv input separator st =
     (let pos0 = pos st;
          st1 = line_breaks input st
      in case parse_line input separator st1 of
           (None, st2) \<Rightarrow> (None, st2\<lparr>pos := pos0\<rparr>)
         | (Some first, st2) \<Rightarrow>
             (let (rest, st3) = sv_loop input separator st2 [];
                  st4 = line_breaks input st3
              in (Some (first # rest), st4)))"

datatype rule = comma | semicolon | tab

fun separator_of :: "rule \<Rightarrow> jschar" where
  "separator_of comma = 0x2C"
| "separator_of semicolon = 0x3B"
| "separator_of tab = 0x09"

definition parse_rule :: "rule \<Rightarrow> jsstring \<Rightarrow> pstate \<Rightarrow> jsstring list list option \<times> pstate" where
  \<comment> \<open>\<open>parse_comma\<close>, \<open>parse_semicolon\<close>, \<open>parse_tab\<close>: set \<open>separator\<close>, then \<open>parse_sv\<close>\<close>
  "parse_rule r input st = parse_sv input (separator_of r) st"

fun expectation_rank :: "expectation \<Rightarrow> nat" where
  \<comment> \<open>the order of the five descriptions as strings, which \<open>sort\<close> uses\<close>
  "expectation_rank ExpQuote = 0"
| "expectation_rank ExpLineBreak = 1"
| "expectation_rank ExpNotQuote = 2"
| "expectation_rank ExpNotLineBreak = 3"
| "expectation_rank ExpAnyCharacter = 4"

definition cleanupExpected :: "expectation list \<Rightarrow> expectation list" where
  "cleanupExpected expected = remdups_adj (sort_key expectation_rank expected)"

definition computeErrorPosition :: "jsstring \<Rightarrow> nat \<Rightarrow> nat \<times> nat" where
  "computeErrorPosition input n =
     (let (line, column, seenCR) =
        fold (\<lambda>i (line, column, seenCR).
                let ch = charAt input i in
                if ch = Some 0x0A then ((if \<not> seenCR then line + 1 else line), 1, False)
                else if ch = Some 0x0D \<or> ch = Some 0x2028 \<or> ch = Some 0x2029
                then (line + 1, 1, True)
                else (line, column + 1, False))
             [0..<n] (1, 1, False)
      in (line, column))"

record syntax_error =
  expected :: "expectation list"
  found :: "jschar option"
  offset :: nat
  line :: nat
  column :: nat

definition parse :: "jsstring \<Rightarrow> rule \<Rightarrow> syntax_error + jsstring list list" where
  "parse input startRule =
     (let st0 = \<lparr>pos = 0, rightmostFailuresPos = 0, rightmostFailuresExpected = []\<rparr>;
          (result, st) = parse_rule startRule input st0;
          failure =
            (let offset = max (pos st) (rightmostFailuresPos st);
                 found = charAt input offset;
                 (line, column) = computeErrorPosition input offset
             in \<lparr>expected = cleanupExpected (rightmostFailuresExpected st), found = found,
                  offset = offset, line = line, column = column\<rparr>)
      in case result of
           None \<Rightarrow> Inl failure
         | Some table \<Rightarrow> if pos st \<noteq> length input then Inl failure else Inr table)"

definition LF :: jsstring where
  "LF = [0x0A]"

section \<open>Separator detection, transposition, cleaning\<close>

text \<open>
  \<open>detectSeparator\<close> (lines 61 to 70), \<open>zip\<close> (lines 73 to 84) and the cleaning of a header
  value or cell, \<open>.trim().replace(/(^")|("$)/g, '')\<close> (lines 135 and 145).
\<close>

definition separators :: "jschar list" where
  "separators = [0x2C, 0x3B, 0x09]"

definition occurrences :: "jschar \<Rightarrow> jsstring \<Rightarrow> nat" where
  \<comment> \<open>\<open>(csv.match(new RegExp(sep, 'g')) || []).length\<close>\<close>
  "occurrences sep csv = length (filter (\<lambda>c. c = sep) csv)"

definition detectSeparator :: "jsstring \<Rightarrow> jschar option" where
  \<comment> \<open>\<open>None\<close> is \<open>undefined\<close>, the value of \<open>sepMax\<close> before the first round\<close>
  "detectSeparator csv =
     fold (\<lambda>sep sepMax.
             case sepMax of
               None \<Rightarrow> Some sep
             | Some m \<Rightarrow> if occurrences sep csv > occurrences m csv then Some sep else Some m)
          separators None"

type_synonym cell = "jsstring option"  \<comment> \<open>\<open>None\<close> is \<open>undefined\<close>\<close>

definition longest :: "cell list list \<Rightarrow> cell list" where
  "longest args = foldl (\<lambda>a b. if length a > length b then a else b) [] args"

definition zip_js :: "cell list list \<Rightarrow> cell list list" where
  \<comment> \<open>\<open>zip.apply(this, a)\<close>: the rows are the arguments\<close>
  "zip_js args =
     map (\<lambda>i. map (\<lambda>array. if i < length array then array ! i else None) args)
         [0..<length (longest args)]"

definition is_white_space :: "jschar \<Rightarrow> bool" where
  \<comment> \<open>the code units that \<open>trim\<close> removes: WhiteSpace and LineTerminator of ECMAScript\<close>
  "is_white_space c =
     (c \<in> {0x09, 0x0A, 0x0B, 0x0C, 0x0D, 0x20, 0xA0, 0x1680, 0x2028, 0x2029,
            0x202F, 0x205F, 0x3000, 0xFEFF} \<or> (0x2000 \<le> c \<and> c \<le> 0x200A))"

definition trim :: "jsstring \<Rightarrow> jsstring" where
  "trim s = rev (dropWhile is_white_space (rev (dropWhile is_white_space s)))"

definition strip_quotes :: "jsstring \<Rightarrow> jsstring" where
  \<comment> \<open>\<open>.replace(/(^")|("$)/g, '')\<close>\<close>
  "strip_quotes s =
     (let s1 = (case s of c # rest \<Rightarrow> if c = 0x22 then rest else s | [] \<Rightarrow> s)
      in if s1 \<noteq> [] \<and> last s1 = 0x22 then butlast s1 else s1)"

definition clean :: "jsstring \<Rightarrow> jsstring" where
  "clean s = strip_quotes (trim s)"

section \<open>Coercion of a cell\<close>

text \<open>
  \<open>value - 0\<close> is \<open>NaN\<close> exactly when the string is not a StringNumericLiteral of
  ECMAScript (white space around it is allowed, the empty string is 0); only whether it
  is \<open>NaN\<close> matters to \<open>convert\<close> (lines 146 and 151).
\<close>

definition is_digit :: "jschar \<Rightarrow> bool" where
  "is_digit c = (0x30 \<le> c \<and> c \<le> 0x39)"

definition strip_sign :: "jsstring \<Rightarrow> jsstring" where
  "strip_sign s = (case s of c # rest \<Rightarrow> if c = 0x2B \<or> c = 0x2D then rest else s | [] \<Rightarrow> s)"

definition exponent_part_opt :: "jsstring \<Rightarrow> bool" where
  "exponent_part_opt s =
     (case s of
        [] \<Rightarrow> True
      | e # rest \<Rightarrow> (e = 0x65 \<or> e = 0x45) \<and> strip_sign rest \<noteq> [] \<and> list_all is_digit (strip_sign rest))"

definition str_unsigned_decimal_literal :: "jsstring \<Rightarrow> bool" where
  "str_unsigned_decimal_literal s =
     (s = js ''Infinity'' \<or>
      (let ip = takeWhile is_digit s; r1 = dropWhile is_digit s in
       case r1 of
         [] \<Rightarrow> ip \<noteq> []
       | c # r2 \<Rightarrow>
           if c = 0x2E
           then (let fp = takeWhile is_digit r2; r3 = dropWhile is_digit r2
                 in (ip \<noteq> [] \<or> fp \<noteq> []) \<and> exponent_part_opt r3)
           else ip \<noteq> [] \<and> exponent_part_opt r1))"

definition non_decimal_integer_literal :: "jsstring \<Rightarrow> bool" where
  "non_decimal_integer_literal s =
     (case s of
        z # x # rest \<Rightarrow>
          z = 0x30 \<and> rest \<noteq> [] \<and>
          ((x = 0x62 \<or> x = 0x42) \<and> list_all (\<lambda>c. c = 0x30 \<or> c = 0x31) rest \<or>
           (x = 0x6F \<or> x = 0x4F) \<and> list_all (\<lambda>c. 0x30 \<le> c \<and> c \<le> 0x37) rest \<or>
           (x = 0x78 \<or> x = 0x58) \<and>
             list_all (\<lambda>c. is_digit c \<or> (0x61 \<le> c \<and> c \<le> 0x66) \<or> (0x41 \<le> c \<and> c \<le> 0x46)) rest)
      | _ \<Rightarrow> False)"

definition string_numeric_literal :: "jsstring \<Rightarrow> bool" where
  \<comment> \<open>the strings that ToNumber does not map to \<open>NaN\<close>\<close>
  "string_numeric_literal s =
     (let t = trim s in
      t = [] \<or> non_decimal_integer_literal t \<or> str_unsigned_decimal_literal (strip_sign t))"

definition number_isNaN :: "jsstring \<Rightarrow> bool" where
  \<comment> \<open>\<open>isNaN(value === "" ? NaN : value - 0)\<close>\<close>
  "number_isNaN v = (if v = [] then True else \<not> string_numeric_literal v)"

datatype jsvalue =
    JNull
  | JBool bool
  | JNumber real
  | JString jsstring
  | JArray "jsvalue list"
  | JObject "(jsstring \<times> jsvalue) list"

text \<open>
  A Record is an object literal that \<open>convert\<close> fills: the map of its own properties.
  The order in which the engine enumerates them is not part of the model.
\<close>

type_synonym jsrecord = "jsstring \<rightharpoonup> jsvalue"

definition set_property :: "(jsstring \<rightharpoonup> 'v) \<Rightarrow> jsstring \<Rightarrow> 'v \<Rightarrow> (jsstring \<rightharpoonup> 'v)" where
  \<comment> \<open>\<open>obj[key] = v\<close> on an object literal: \<open>__proto__\<close> is a setter, not a property\<close>
  "set_property obj key v = (if key = js ''__proto__'' then obj else obj(key \<mapsto> v))"

text \<open>
  The options that \<open>convert\<close> reads; \<open>separator\<close>, when given, is a string.
\<close>

record options =
  separator_option :: "jsstring option"
  parseNumbers :: bool
  parseJSON :: bool
  transpose_option :: bool
  hash :: bool
  returnArray :: bool

text \<open>
  \<open>JSON.parse\<close> belongs to the host, not to this program: \<open>convert\<close> takes it as the
  parameter \<open>JSON_parse\<close>, with \<open>None\<close> for a thrown \<open>SyntaxError\<close>.
\<close>

definition cell_value :: "(jsstring \<Rightarrow> jsvalue option) \<Rightarrow> options \<Rightarrow> jsstring \<Rightarrow> jsvalue" where
  "cell_value JSON_parse opts v =
     (if parseJSON opts \<or> (parseNumbers opts \<and> \<not> number_isNaN v)
      then (case JSON_parse v of Some parsed \<Rightarrow> parsed | None \<Rightarrow> JString v)
      else JString v)"

definition cell_at :: "cell list \<Rightarrow> nat \<Rightarrow> jsstring" where
  \<comment> \<open>\<open>(a[l][i]||'')\<close>\<close>
  "cell_at row i = (if i < length row then (case row ! i of Some s \<Rightarrow> s | None \<Rightarrow> []) else [])"

definition build_row ::
  "(jsstring \<Rightarrow> jsvalue option) \<Rightarrow> options \<Rightarrow> jsstring list \<Rightarrow> cell list \<Rightarrow> jsstring option
     \<Rightarrow> jsrecord \<times> jsstring option" where
  "build_row JSON_parse opts keys cells hashKey0 =
     fold (\<lambda>i (row, hashKey).
             let v = clean (cell_at cells i) in
             if hash opts \<and> i = 0 then (row, Some v)
             else (set_property row (keys ! i) (cell_value JSON_parse opts v), hashKey))
          [0..<length keys] (Map.empty, hashKey0)"

datatype conversion =
    RawTable "cell list list"
  | Records "jsrecord list"
  | Mapping "jsstring \<rightharpoonup> jsrecord"

definition build_json ::
  "(jsstring \<Rightarrow> jsvalue option) \<Rightarrow> options \<Rightarrow> jsstring list \<Rightarrow> cell list list \<Rightarrow> conversion" where
  "build_json JSON_parse opts keys rows =
     (let (arr, obj, hashKey) =
        fold (\<lambda>cells (arr, obj, hashKey).
                let (row, hashKey') = build_row JSON_parse opts keys cells hashKey in
                if hash opts
                then (arr, set_property obj (case hashKey' of Some k \<Rightarrow> k | None \<Rightarrow> js ''undefined'') row, hashKey')
                else (arr @ [row], obj, hashKey'))
             rows ([], Map.empty, None)
      in if hash opts then Mapping obj else Records arr)"

datatype error =
    InputEmpty
  | SeparatorUndetectable
  | EmptyHeader
  | SyntaxError syntax_error
  | TypeError

text \<open>
  \<open>pegjsSeparatorNames[separator]\<close> as the start rule of \<open>parse\<close>: \<open>undefined\<close> selects
  \<open>comma\<close>. For a separator that names a property of \<open>Object.prototype\<close> the lookup
  yields an inherited function or object, which is no rule name; \<open>parse\<close> then calls
  \<open>quote(startRule)\<close> to build its message, and \<open>s.replace\<close> on a function or object
  raises a \<open>TypeError\<close>, which the \<open>catch\<close> block of \<open>convert\<close> throws on. \<open>None\<close> stands for
  that case.
\<close>

definition start_rule :: "jsstring \<Rightarrow> rule option" where
  "start_rule sep =
     (if sep = [0x2C] then Some comma
      else if sep = [0x3B] then Some semicolon
      else if sep = [0x09] then Some tab
      else if proto_name sep then None
      else Some comma)"

definition header_keys :: "jsstring list \<Rightarrow> jsstring list" where
  "header_keys keys = uniquify (map clean keys)"

definition resolve_separator :: "options \<Rightarrow> jsstring \<Rightarrow> jsstring option" where
  \<comment> \<open>\<open>options.separator || detectSeparator(csv)\<close>; \<open>None\<close> is a falsy result\<close>
  "resolve_separator opts csv =
     (case separator_option opts of
        Some s \<Rightarrow> if s \<noteq> [] then Some s else map_option (\<lambda>c. [c]) (detectSeparator csv)
      | None \<Rightarrow> map_option (\<lambda>c. [c]) (detectSeparator csv))"

definition convert_table ::
  "(jsstring \<Rightarrow> jsvalue option) \<Rightarrow> options \<Rightarrow> cell list list \<Rightarrow> error + conversion" where
  \<comment> \<open>\<open>convert\<close> from \<open>a.shift()\<close> on: the header row, then the Records\<close>
  "convert_table JSON_parse opts a =
     (case a of
        [] \<Rightarrow> Inl TypeError
      | keys # rows \<Rightarrow>
          if length keys = 0 then Inl EmptyHeader
          else if None \<in> set keys then Inl TypeError
          else Inr (build_json JSON_parse opts (header_keys (map the keys)) rows))"

text \<open>
  \<open>convert\<close> (lines 107 to 170). Every \<open>throw\<close> is an \<open>error\<close>; of the message that the
  \<open>catch\<close> block builds from a \<open>SyntaxError\<close>, the error keeps the payload (expected,
  found, offset, line, column), not the text.
\<close>

definition convert :: "(jsstring \<Rightarrow> jsvalue option) \<Rightarrow> jsstring \<Rightarrow> options \<Rightarrow> error + conversion" where
  "convert JSON_parse csv opts =
     (if length csv = 0 then Inl InputEmpty
      else
        case resolve_separator opts csv of
          None \<Rightarrow> Inl SeparatorUndetectable
        | Some sep \<Rightarrow>
            (case start_rule sep of
               None \<Rightarrow> Inl TypeError
             | Some r \<Rightarrow>
                 (case parse csv r of
                    Inl e \<Rightarrow> Inl (SyntaxError e)
                  | Inr parsed \<Rightarrow>
                      (let a = (if transpose_option opts then zip_js (map (map Some) parsed)
                                else map (map Some) parsed)
                       in if returnArray opts then Inr (RawTable a)
                          else convert_table JSON_parse opts a))))"

definition default_options :: options where
  "default_options = \<lparr>separator_option = None, parseNumbers = False, parseJSON = False,
     transpose_option = False, hash = False, returnArray = False\<rparr>"

text \<open>
  An instance of the host's \<open>JSON.parse\<close> for concrete runs: it decodes the integer
  literals of JSON and rejects every other text. The theorems hold for every
  \<open>JSON_parse\<close>; where one needs a decoded value, it says which.
\<close>

definition JSON_parse_integers :: "jsstring \<Rightarrow> jsvalue option" where
  "JSON_parse_integers s =
     (let digits = (case s of c # rest \<Rightarrow> if c = 0x2D then rest else s | [] \<Rightarrow> s) in
      if digits \<noteq> [] \<and> list_all is_digit digits \<and> (hd digits = 0x30 \<longrightarrow> length digits = 1)
      then Some (JNumber ((if digits = s then 1 else -1) * real (string_to_number digits)))
      else None)"

section \<open>Properties of \<open>uniquify\<close>\<close>

definition bump :: "count \<Rightarrow> count" where
  "bump v = (case v of Undefined \<Rightarrow> Number 0 | Number n \<Rightarrow> Number (n + 1) | _ \<Rightarrow> NaN)"

definition suffixed :: "jsstring \<Rightarrow> nat \<Rightarrow> jsstring" where
  "suffixed key n =
     (if proto_name key \<or> n = 0 then key else key @ js ''__'' @ number_to_string n)"

lemma proto_name_proto: "proto_name (js ''__proto__'')"
  by (simp add: proto_name_def object_prototype_names_def)

lemma count_keys_step:
  "count_keys (key # keys) c = count_keys keys (put c key (bump (c key)))"
  by (cases "c key") (simp_all add: bump_def)

lemma count_keys_at:
  "count_keys keys c k =
     (if k = js ''__proto__'' then c k else (bump ^^ count_list keys k) (c k))"
proof (induction keys arbitrary: c)
  case Nil
  show ?case by simp
next
  case (Cons key keys)
  show ?case
    unfolding count_keys_step Cons.IH
    by (simp add: put_def funpow_swap1)
qed

lemma bump_simps:
  "bump Undefined = Number 0" "bump (Number n) = Number (Suc n)"
  "bump NaN = NaN" "bump Inherited = NaN"
  by (simp_all add: bump_def)

lemma bump_Undefined:
  "(bump ^^ m) Undefined = (if m = 0 then Undefined else Number (m - 1))"
  by (induction m) (simp_all add: bump_simps)

lemma bump_Inherited: "(bump ^^ m) Inherited \<noteq> Number n"
proof -
  have "(bump ^^ m) Inherited = (if m = 0 then Inherited else NaN)"
    by (induction m) (simp_all add: bump_simps)
  then show ?thesis by simp
qed

lemma count_keys_empty_plain:
  "\<not> proto_name k \<Longrightarrow> k \<in> set keys \<Longrightarrow>
     count_keys keys empty_object k = Number (count_list keys k - 1)"
  using proto_name_proto
  by (auto simp: count_keys_at empty_object_def bump_Undefined count_list_0_iff)

lemma count_keys_empty_proto:
  "proto_name k \<Longrightarrow> count_keys keys empty_object k \<noteq> Number n"
  by (simp add: count_keys_at empty_object_def bump_Inherited)

fun renamed_rev :: "jsstring list \<Rightarrow> jsstring list" where
  "renamed_rev [] = []"
| "renamed_rev (key # keys) = renamed_rev keys @ [suffixed key (count_list keys key)]"

lemma rename_keys_eq:
  "(\<And>k. \<not> proto_name k \<Longrightarrow> k \<in> set ks \<Longrightarrow> c k = Number (count_list ks k - 1)) \<Longrightarrow>
   (\<And>k n. proto_name k \<Longrightarrow> c k \<noteq> Number n) \<Longrightarrow>
   rename_keys ks c result = renamed_rev ks @ result"
proof (induction ks arbitrary: c result)
  case Nil
  show ?case by simp
next
  case (Cons key ks)
  show ?case
  proof (cases "proto_name key")
    case True
    then have nonum: "\<And>n. c key \<noteq> Number n" using Cons.prems(2) by blast
    have step: "rename_keys (key # ks) c result = rename_keys ks c (key # result)"
      using nonum by (cases "c key") (auto split: nat.splits)
    have "rename_keys ks c (key # result) = renamed_rev ks @ key # result"
    proof (rule Cons.IH)
      fix k assume "\<not> proto_name k" "k \<in> set ks"
      then show "c k = Number (count_list ks k - 1)"
        using Cons.prems(1)[of k] True by auto
    next
      fix k n assume "proto_name k" then show "c k \<noteq> Number n" using Cons.prems(2) by blast
    qed
    then show ?thesis using True step by (simp add: suffixed_def)
  next
    case False
    then have ck: "c key = Number (count_list ks key)" using Cons.prems(1)[of key] by simp
    have nproto: "key \<noteq> js ''__proto__''" using False proto_name_proto by auto
    show ?thesis
    proof (cases "count_list ks key")
      case 0
      then have notin: "key \<notin> set ks" by (simp add: count_list_0_iff)
      have step: "rename_keys (key # ks) c result = rename_keys ks c (key # result)"
        using ck 0 by simp
      have "rename_keys ks c (key # result) = renamed_rev ks @ key # result"
      proof (rule Cons.IH)
        fix k assume "\<not> proto_name k" "k \<in> set ks"
        then show "c k = Number (count_list ks k - 1)"
          using Cons.prems(1)[of k] notin by auto
      next
        fix k n assume "proto_name k" then show "c k \<noteq> Number n" using Cons.prems(2) by blast
      qed
      then show ?thesis using step 0 by (simp add: suffixed_def)
    next
      case (Suc n)
      have step: "rename_keys (key # ks) c result =
          rename_keys ks (put c key (Number n)) ((key @ js ''__'' @ number_to_string (Suc n)) # result)"
        using ck Suc by simp
      have "rename_keys ks (put c key (Number n)) ((key @ js ''__'' @ number_to_string (Suc n)) # result)
            = renamed_rev ks @ (key @ js ''__'' @ number_to_string (Suc n)) # result"
      proof (rule Cons.IH)
        fix k assume "\<not> proto_name k" "k \<in> set ks"
        then show "put c key (Number n) k = Number (count_list ks k - 1)"
          using Cons.prems(1)[of k] Suc nproto by (auto simp: put_def)
      next
        fix k m assume "proto_name k" then show "put c key (Number n) k \<noteq> Number m"
          using Cons.prems(2) False by (auto simp: put_def)
      qed
      then show ?thesis using step Suc False by (simp add: suffixed_def)
    qed
  qed
qed

lemma uniquify_renamed: "uniquify keys = renamed_rev (rev keys)"
  unfolding uniquify_def
  using rename_keys_eq[of "rev keys" "count_keys keys empty_object" "[]"]
  by (simp add: count_keys_empty_plain count_keys_empty_proto)

lemma length_renamed_rev: "length (renamed_rev ks) = length ks"
  by (induction ks) simp_all

lemma renamed_rev_nth:
  "i < length keys \<Longrightarrow>
     renamed_rev (rev keys) ! i = suffixed (keys ! i) (count_list (take i keys) (keys ! i))"
proof (induction keys rule: rev_induct)
  case Nil
  then show ?case by simp
next
  case (snoc k keys)
  show ?case
  proof (cases "i < length keys")
    case True
    then show ?thesis using snoc.IH by (simp add: nth_append length_renamed_rev)
  next
    case False
    then have "i = length keys" using snoc.prems by simp
    then show ?thesis by (simp add: nth_append length_renamed_rev)
  qed
qed

fun has_dunder :: "jsstring \<Rightarrow> bool" where
  "has_dunder (a # b # rest) = ((a = 0x5F \<and> b = 0x5F) \<or> has_dunder (b # rest))"
| "has_dunder _ = False"

lemma js_dunder: "js ''__'' = [0x5F, 0x5F]"
  by (simp add: js_def)

lemma has_dunder_append: "has_dunder (a @ 0x5F # 0x5F # b)"
  by (induction a rule: has_dunder.induct) auto

lemma digit_unat: "d < 10 \<Longrightarrow> unat (digit d) = 48 + d"
  by (simp add: digit_def of_nat_inverse)

lemma digit_not_underscore: "d < 10 \<Longrightarrow> digit d \<noteq> 0x5F"
  using digit_unat[of d] by auto

lemma number_to_string_digits: "c \<in> set (number_to_string n) \<Longrightarrow> c \<noteq> 0x5F"
proof (induction n rule: number_to_string.induct)
  case (1 n)
  show ?case
  proof (cases "n < 10")
    case True
    then show ?thesis using "1.prems" digit_not_underscore[of n]
      by (simp add: number_to_string.simps[of n])
  next
    case False
    then show ?thesis using "1.prems" "1.IH" digit_not_underscore[of "n mod 10"]
      by (auto simp: number_to_string.simps[of n])
  qed
qed

lemma string_to_number_inverse: "string_to_number (number_to_string n) = n"
proof (induction n rule: number_to_string.induct)
  case (1 n)
  show ?case
  proof (cases "n < 10")
    case True
    then show ?thesis
      by (simp add: number_to_string.simps[of n] string_to_number_def digit_unat)
  next
    case False
    then have "string_to_number (number_to_string (n div 10)) = n div 10" using "1.IH" by simp
    then show ?thesis using False
      by (simp add: number_to_string.simps[of n] string_to_number_def digit_unat)
  qed
qed

lemma number_to_string_inj: "number_to_string m = number_to_string n \<Longrightarrow> m = n"
  using string_to_number_inverse by metis

lemma suffix_cut:
  "takeWhile (\<lambda>c. c \<noteq> 0x5F) (rev (a @ js ''__'' @ number_to_string n)) = rev (number_to_string n)"
proof -
  have "takeWhile (\<lambda>c. c \<noteq> 0x5F) (rev (number_to_string n) @ 0x5F # 0x5F # rev a)
          = rev (number_to_string n) @ takeWhile (\<lambda>c. c \<noteq> 0x5F) (0x5F # 0x5F # rev a)"
    by (rule takeWhile_append2) (use number_to_string_digits[of _ n] in auto)
  then show ?thesis by (simp add: js_dunder)
qed

lemma suffix_inj:
  assumes "a @ js ''__'' @ number_to_string m = b @ js ''__'' @ number_to_string n"
  shows "a = b \<and> m = n"
proof -
  have "rev (number_to_string m) = rev (number_to_string n)"
    using suffix_cut[of a m] suffix_cut[of b n] assms by simp
  then have eq: "number_to_string m = number_to_string n" by simp
  then have "m = n" by (rule number_to_string_inj)
  moreover have "a = b" using assms eq by simp
  ultimately show ?thesis by simp
qed

lemma suffix_has_dunder: "has_dunder (a @ js ''__'' @ b)"
  by (simp add: js_dunder has_dunder_append)

lemma count_before_less:
  assumes "i < j" "j < length keys" "keys ! i = keys ! j"
  shows "count_list (take i keys) (keys ! i) < count_list (take j keys) (keys ! j)"
proof -
  have "i < length (take j keys)" using assms(1,2) by simp
  then have "take j keys = take i (take j keys) @ (take j keys) ! i # drop (Suc i) (take j keys)"
    by (rule id_take_nth_drop)
  then have "take j keys = take i keys @ keys ! i # drop (Suc i) (take j keys)"
    using assms(1) by (simp add: min_def)
  then have "count_list (take j keys) (keys ! i) =
     count_list (take i keys @ keys ! i # drop (Suc i) (take j keys)) (keys ! i)" by simp
  then show ?thesis using assms(3) by simp
qed

lemma renamed_distinct_plain:
  assumes nd: "\<And>k. k \<in> set keys \<Longrightarrow> \<not> has_dunder k"
    and ij: "i < j" "j < length keys"
    and plain: "\<not> proto_name (keys ! i)" "\<not> proto_name (keys ! j)"
  shows "suffixed (keys ! i) (count_list (take i keys) (keys ! i))
       \<noteq> suffixed (keys ! j) (count_list (take j keys) (keys ! j))"
proof
  let ?m = "count_list (take i keys) (keys ! i)" and ?n = "count_list (take j keys) (keys ! j)"
  assume eq: "suffixed (keys ! i) ?m = suffixed (keys ! j) ?n"
  have ki: "\<not> has_dunder (keys ! i)" and kj: "\<not> has_dunder (keys ! j)"
    using nd ij by simp_all
  consider (bare) "?m = 0" "?n = 0" | (left) "?m = 0" "?n \<noteq> 0"
    | (right) "?m \<noteq> 0" "?n = 0" | (both) "?m \<noteq> 0" "?n \<noteq> 0" by blast
  then show False
  proof cases
    case bare
    then have "keys ! i = keys ! j" using eq by (simp add: suffixed_def)
    then show False using count_before_less[OF ij] bare by simp
  next
    case left
    then have "keys ! i = keys ! j @ js ''__'' @ number_to_string ?n"
      using eq plain by (simp add: suffixed_def)
    then show False using ki suffix_has_dunder by metis
  next
    case right
    then have "keys ! j = keys ! i @ js ''__'' @ number_to_string ?m"
      using eq plain by (simp add: suffixed_def)
    then show False using kj suffix_has_dunder by metis
  next
    case both
    then have "keys ! i @ js ''__'' @ number_to_string ?m = keys ! j @ js ''__'' @ number_to_string ?n"
      using eq plain by (simp add: suffixed_def)
    then have same: "keys ! i = keys ! j \<and> ?m = ?n" by (rule suffix_inj)
    then have a: "keys ! i = keys ! j" and b: "?m = ?n" by blast+
    show False using count_before_less[OF ij a] b by linarith
  qed
qed

lemma uniquify_nth:
  "i < length keys \<Longrightarrow>
     uniquify keys ! i = suffixed (keys ! i) (count_list (take i keys) (keys ! i))"
  by (simp add: uniquify_renamed renamed_rev_nth)

lemma length_uniquify: "length (uniquify keys) = length keys"
  by (simp add: uniquify_renamed length_renamed_rev)

lemma uniquify_distinct:
  assumes "\<And>k. k \<in> set keys \<Longrightarrow> \<not> has_dunder k \<and> \<not> proto_name k"
  shows "distinct (uniquify keys)"
proof -
  have "uniquify keys ! i \<noteq> uniquify keys ! j" if "i < j" "j < length keys" for i j
    using that assms renamed_distinct_plain[of keys i j]
    by (simp add: uniquify_nth)
  then have "uniquify keys ! i \<noteq> uniquify keys ! j"
    if "i < length keys" "j < length keys" "i \<noteq> j" for i j
    using that by (metis linorder_neqE_nat)
  then show ?thesis by (simp add: distinct_conv_nth length_uniquify)
qed

lemma uniquify_fixed:
  assumes "\<And>j. j < length r \<Longrightarrow> \<not> proto_name (r ! j) \<Longrightarrow> r ! j \<notin> set (take j r)"
  shows "uniquify r = r"
proof (rule nth_equalityI)
  show "length (uniquify r) = length r" by (rule length_uniquify)
next
  fix j assume "j < length (uniquify r)"
  then have j: "j < length r" by (simp add: length_uniquify)
  then show "uniquify r ! j = r ! j"
    using assms[OF j] by (auto simp: uniquify_nth suffixed_def count_list_0_iff)
qed

section \<open>Evaluation at concrete inputs\<close>

lemma js_Nil: "js [] = []" by (simp add: js_def)
lemma js_Cons: "js (c # s) = of_nat (of_char c) # js s" by (simp add: js_def)

lemmas parser_eval =
  parse_def parse_rule_def parse_sv_def parse_line_def parse_field_def parse_char_def
  sv_loop.simps line_breaks.simps line_loop.simps unquoted_loop.simps chars_loop.simps
  charAt_def matchFailed_def computeErrorPosition_def cleanupExpected_def Let_def LF_def
  js_Nil js_Cons

lemma object_prototype_names_eval:
  "object_prototype_names =
     [[0x63,0x6F,0x6E,0x73,0x74,0x72,0x75,0x63,0x74,0x6F,0x72],
      [0x5F,0x5F,0x64,0x65,0x66,0x69,0x6E,0x65,0x47,0x65,0x74,0x74,0x65,0x72,0x5F,0x5F],
      [0x5F,0x5F,0x64,0x65,0x66,0x69,0x6E,0x65,0x53,0x65,0x74,0x74,0x65,0x72,0x5F,0x5F],
      [0x68,0x61,0x73,0x4F,0x77,0x6E,0x50,0x72,0x6F,0x70,0x65,0x72,0x74,0x79],
      [0x5F,0x5F,0x6C,0x6F,0x6F,0x6B,0x75,0x70,0x47,0x65,0x74,0x74,0x65,0x72,0x5F,0x5F],
      [0x5F,0x5F,0x6C,0x6F,0x6F,0x6B,0x75,0x70,0x53,0x65,0x74,0x74,0x65,0x72,0x5F,0x5F],
      [0x69,0x73,0x50,0x72,0x6F,0x74,0x6F,0x74,0x79,0x70,0x65,0x4F,0x66],
      [0x70,0x72,0x6F,0x70,0x65,0x72,0x74,0x79,0x49,0x73,0x45,0x6E,0x75,0x6D,0x65,0x72,0x61,0x62,0x6C,0x65],
      [0x74,0x6F,0x53,0x74,0x72,0x69,0x6E,0x67],
      [0x76,0x61,0x6C,0x75,0x65,0x4F,0x66],
      [0x5F,0x5F,0x70,0x72,0x6F,0x74,0x6F,0x5F,0x5F],
      [0x74,0x6F,0x4C,0x6F,0x63,0x61,0x6C,0x65,0x53,0x74,0x72,0x69,0x6E,0x67]]"
  by (simp add: object_prototype_names_def js_Nil js_Cons)

lemmas uniquify_eval =
  uniquify_def empty_object_def proto_name_def object_prototype_names_eval put_def
  number_to_string.simps digit_def js_Nil js_Cons

lemmas convert_eval =
  convert_def convert_table_def resolve_separator_def detectSeparator_def separators_def occurrences_def start_rule_def
  header_keys_def clean_def trim_def strip_quotes_def is_white_space_def
  build_json_def build_row_def cell_at_def cell_value_def set_property_def
  number_isNaN_def default_options_def zip_js_def longest_def upt_rec

section \<open>Claims about \<open>uniquify\<close> and the header keys\<close>

text \<open>
  C1, as the code has it. The second loop of \<open>uniquify\<close> runs from the last key to the
  first, but the counter it takes the suffix from counts down, so the last of \<open>k\<close> equal
  keys is renamed \<open>value__(k-1)\<close> and the first one keeps the bare value: a key that is
  not a property name of \<open>Object.prototype\<close> and has \<open>n\<close> equal keys to its left is
  renamed \<open>value__n\<close> when \<open>n > 0\<close> and left untouched when \<open>n = 0\<close>. The list keeps its
  length, and \<open>["x","x","x"]\<close> becomes \<open>["x","x__1","x__2"]\<close>.
\<close>

theorem uniquify_first_occurrence_bare:
  "length (uniquify keys) = length keys \<and>
   (\<forall>i<length keys. \<not> proto_name (keys ! i) \<longrightarrow>
      uniquify keys ! i =
        (if count_list (take i keys) (keys ! i) = 0 then keys ! i
         else keys ! i @ js ''__'' @ number_to_string (count_list (take i keys) (keys ! i)))) \<and>
   uniquify [js ''x'', js ''x'', js ''x''] = [js ''x'', js ''x__1'', js ''x__2'']"
proof (intro conjI allI impI)
  show "length (uniquify keys) = length keys" by (rule length_uniquify)
next
  fix i assume "i < length keys" "\<not> proto_name (keys ! i)"
  then show "uniquify keys ! i =
        (if count_list (take i keys) (keys ! i) = 0 then keys ! i
         else keys ! i @ js ''__'' @ number_to_string (count_list (take i keys) (keys ! i)))"
    by (simp add: uniquify_nth suffixed_def)
next
  show "uniquify [js ''x'', js ''x'', js ''x''] = [js ''x'', js ''x__1'', js ''x__2'']"
    by (simp add: uniquify_eval)
qed

theorem uniquify_first_occurrence_bare_witness:
  "uniquify [js ''a'', js ''b'', js ''a'', js ''a''] ! 3 = js ''a__2''"
proof -
  let ?ks = "[js ''a'', js ''b'', js ''a'', js ''a'']"
  have len: "3 < length ?ks" by simp
  have plain: "\<not> proto_name (?ks ! 3)" by (simp add: uniquify_eval)
  have "uniquify ?ks ! 3 =
      (if count_list (take 3 ?ks) (?ks ! 3) = 0 then ?ks ! 3
       else ?ks ! 3 @ js ''__'' @ number_to_string (count_list (take 3 ?ks) (?ks ! 3)))"
    by (rule uniquify_first_occurrence_bare
          [of ?ks, THEN conjunct2, THEN conjunct1, rule_format, OF len plain])
  also have "\<dots> = js ''a__2''"
    by (simp add: uniquify_eval numeral_3_eq_3)
  finally show ?thesis .
qed

text \<open>
  The claim as the specification states it (the last occurrence bare, the first one
  renamed \<open>value__(k-1)\<close>) fails on its own example.
\<close>

theorem uniquify_last_bare_counterexample:
  "uniquify [js ''x'', js ''x'', js ''x''] \<noteq> [js ''x__2'', js ''x__1'', js ''x'']"
  by (simp add: uniquify_eval)

text \<open>
  C9: de-duplication is idempotent on its output. For every header list in which no
  value contains two consecutive underscores, \<open>uniquify\<close> applied twice yields the same
  list as \<open>uniquify\<close> applied once.
\<close>

theorem uniquify_idempotent:
  assumes nd: "\<forall>k\<in>set keys. \<not> has_dunder k"
  shows "uniquify (uniquify keys) = uniquify keys"
proof (rule uniquify_fixed)
  fix j
  assume j: "j < length (uniquify keys)" and plain: "\<not> proto_name (uniquify keys ! j)"
  have jk: "j < length keys" using j by (simp add: length_uniquify)
  have pj: "\<not> proto_name (keys ! j)"
    using plain jk by (auto simp: uniquify_nth suffixed_def)
  have "uniquify keys ! i \<noteq> uniquify keys ! j" if "i < j" for i
  proof (cases "proto_name (keys ! i)")
    case True
    then have "proto_name (uniquify keys ! i)"
      using that jk by (simp add: uniquify_nth suffixed_def)
    then show ?thesis using plain by auto
  next
    case False
    then show ?thesis
      using renamed_distinct_plain[of keys i j] nd that jk pj by (simp add: uniquify_nth)
  qed
  then show "uniquify keys ! j \<notin> set (take j (uniquify keys))"
    using j by (auto simp: in_set_conv_nth)
qed

theorem uniquify_idempotent_witness:
  "uniquify (uniquify [js ''x'', js ''toString'', js ''x'', js ''toString''])
     = uniquify [js ''x'', js ''toString'', js ''x'', js ''toString'']"
proof -
  have "\<forall>k\<in>set [js ''x'', js ''toString'', js ''x'', js ''toString'']. \<not> has_dunder k"
    by (simp add: js_Nil js_Cons)
  then show ?thesis by (rule uniquify_idempotent)
qed

text \<open>
  C6, as the code has it. \<open>convert\<close> builds its Records with the keys
  \<open>header_keys row = uniquify (map clean row)\<close>. There are as many keys as header
  fields; they are all non-empty when no cleaned header value is empty; and they are
  pairwise distinct when no cleaned header value contains two consecutive underscores
  or is a property name of \<open>Object.prototype\<close>.
\<close>

theorem header_keys_unique_nonempty:
  "length (header_keys hdr) = length hdr \<and>
   ((\<forall>k\<in>set hdr. clean k \<noteq> []) \<longrightarrow> (\<forall>k\<in>set (header_keys hdr). k \<noteq> [])) \<and>
   ((\<forall>k\<in>set hdr. \<not> has_dunder (clean k) \<and> \<not> proto_name (clean k))
      \<longrightarrow> distinct (header_keys hdr))"
proof (intro conjI impI)
  show "length (header_keys hdr) = length hdr"
    by (simp add: header_keys_def length_uniquify)
next
  assume ne: "\<forall>k\<in>set hdr. clean k \<noteq> []"
  show "\<forall>k\<in>set (header_keys hdr). k \<noteq> []"
  proof
    fix k assume "k \<in> set (header_keys hdr)"
    then obtain i where i: "i < length hdr" and k: "k = uniquify (map clean hdr) ! i"
      by (auto simp: header_keys_def in_set_conv_nth length_uniquify)
    have "clean (hdr ! i) \<noteq> []" using ne i by simp
    then show "k \<noteq> []" using i k by (simp add: uniquify_nth suffixed_def)
  qed
next
  assume "\<forall>k\<in>set hdr. \<not> has_dunder (clean k) \<and> \<not> proto_name (clean k)"
  then show "distinct (header_keys hdr)"
    unfolding header_keys_def by (intro uniquify_distinct) auto
qed

theorem header_keys_unique_nonempty_witness:
  "distinct (header_keys [js '' a '', js ''b'', js ''\"a\"'']) \<and>
   [] \<notin> set (header_keys [js '' a '', js ''b'', js ''\"a\"''])"
proof -
  have cleaned: "map clean [js '' a '', js ''b'', js ''\"a\"''] = [js ''a'', js ''b'', js ''a'']"
    by (simp add: clean_def trim_def strip_quotes_def is_white_space_def js_Nil js_Cons)
  have h1: "\<forall>k\<in>set [js '' a '', js ''b'', js ''\"a\"'']. clean k \<noteq> []"
    using cleaned by (simp add: js_Nil js_Cons)
  have h2: "\<forall>k\<in>set [js '' a '', js ''b'', js ''\"a\"''].
      \<not> has_dunder (clean k) \<and> \<not> proto_name (clean k)"
    using cleaned by (simp add: proto_name_def object_prototype_names_eval js_Nil js_Cons)
  show ?thesis
    using header_keys_unique_nonempty[of "[js '' a '', js ''b'', js ''\"a\"'']"] h1 h2
    by blast
qed

text \<open>
  The claim as the specification states it fails: a header that already uses the
  suffix convention yields a repeated key, and an empty header field yields an empty key;
  both conversions succeed.
\<close>

theorem header_keys_counterexample:
  "\<not> distinct (header_keys [js ''x__1'', js ''x'', js ''x'']) \<and>
   [] \<in> set (header_keys [js ''a'', js '''', js ''b'']) \<and>
   convert JSON_parse_integers (js ''x__1,x,x'' @ LF @ js ''1,2,3'') default_options
     = Inr (Records [[js ''x__1'' \<mapsto> JString (js ''1''), js ''x'' \<mapsto> JString (js ''2''),
                      js ''x__1'' \<mapsto> JString (js ''3'')]]) \<and>
   convert JSON_parse_integers (js ''a,,b'' @ LF @ js ''1,2,3'') default_options
     = Inr (Records [[js ''a'' \<mapsto> JString (js ''1''), [] \<mapsto> JString (js ''2''),
                      js ''b'' \<mapsto> JString (js ''3'')]])"
  by (simp add: convert_eval parser_eval uniquify_eval)

section \<open>Properties of the parser\<close>

definition escape_quotes :: "jsstring \<Rightarrow> jsstring" where
  \<comment> \<open>the text between the quotes of a quoted field that carries the given value\<close>
  "escape_quotes s = concat (map (\<lambda>c. if c = 0x22 then [0x22, 0x22] else [c]) s)"

lemma charAt_here: "charAt (pre @ x # rest) (length pre) = Some x"
  by (simp add: charAt_def)

lemma charAt_next: "charAt (pre @ x # rest) (Suc (length pre)) = charAt rest 0"
  by (cases rest) (simp_all add: charAt_def nth_append)

lemma charAt_end: "charAt input (length input) = None"
  by (simp add: charAt_def)

lemma parse_char_escaped:
  "pos st = length pre \<Longrightarrow>
     parse_char (pre @ 0x22 # 0x22 # rest) st = (Some 0x22, st\<lparr>pos := length pre + 2\<rparr>)"
  using charAt_here[of pre "0x22" "0x22 # rest"] charAt_next[of pre "0x22" "0x22 # rest"]
  by (simp add: parse_char_def Let_def charAt_def[of "0x22 # rest"])

lemma parse_char_plain:
  "pos st = length pre \<Longrightarrow> c \<noteq> 0x22 \<Longrightarrow>
     parse_char (pre @ c # rest) st = (Some c, (matchFailed ExpQuote st)\<lparr>pos := length pre + 1\<rparr>)"
  using charAt_here[of pre c rest]
  by (simp add: parse_char_def Let_def)

lemma parse_char_closing:
  "pos st = length pre \<Longrightarrow> charAt rest 0 \<noteq> Some 0x22 \<Longrightarrow>
     \<exists>st'. parse_char (pre @ 0x22 # rest) st = (None, st') \<and> pos st' = length pre"
  using charAt_here[of pre "0x22" rest] charAt_next[of pre "0x22" rest]
  by (simp add: parse_char_def Let_def)

lemma parse_char_end:
  "pos st = length input \<Longrightarrow>
     \<exists>st'. parse_char input st = (None, st') \<and> pos st' = length input"
  using charAt_end[of input]
  by (simp add: parse_char_def Let_def)

lemma chars_loop_quoted:
  "pos st = length pre \<Longrightarrow> charAt rest 0 \<noteq> Some 0x22 \<Longrightarrow>
     \<exists>st'. chars_loop (pre @ escape_quotes cs @ 0x22 # rest) st acc = (acc @ cs, st') \<and>
           pos st' = length pre + length (escape_quotes cs)"
proof (induction cs arbitrary: pre st acc)
  case Nil
  obtain st' where "parse_char (pre @ 0x22 # rest) st = (None, st')" "pos st' = length pre"
    using parse_char_closing[OF Nil] by blast
  then show ?case
    by (subst chars_loop.simps) (simp add: escape_quotes_def)
next
  case (Cons c cs)
  let ?tail = "escape_quotes cs @ 0x22 # rest"
  show ?case
  proof (cases "c = 0x22")
    case True
    have step: "parse_char (pre @ 0x22 # 0x22 # ?tail) st = (Some 0x22, st\<lparr>pos := length pre + 2\<rparr>)"
      using Cons.prems(1) by (rule parse_char_escaped)
    obtain st' where
      "chars_loop ((pre @ [0x22, 0x22]) @ ?tail) (st\<lparr>pos := length pre + 2\<rparr>) (acc @ [0x22])
         = ((acc @ [0x22]) @ cs, st')"
      "pos st' = length (pre @ [0x22, 0x22]) + length (escape_quotes cs)"
      using Cons.IH[of "st\<lparr>pos := length pre + 2\<rparr>" "pre @ [0x22, 0x22]" "acc @ [0x22]"] Cons.prems(2)
      by auto
    then show ?thesis using True step
      by (subst chars_loop.simps) (simp add: escape_quotes_def)
  next
    case False
    let ?st1 = "(matchFailed ExpQuote st)\<lparr>pos := length pre + 1\<rparr>"
    have step: "parse_char (pre @ c # ?tail) st = (Some c, ?st1)"
      using Cons.prems(1) False by (rule parse_char_plain)
    obtain st' where
      "chars_loop ((pre @ [c]) @ ?tail) ?st1 (acc @ [c]) = ((acc @ [c]) @ cs, st')"
      "pos st' = length (pre @ [c]) + length (escape_quotes cs)"
      using Cons.IH[of ?st1 "pre @ [c]" "acc @ [c]"] Cons.prems(2) by auto
    then show ?thesis using False step
      by (subst chars_loop.simps) (simp add: escape_quotes_def)
  qed
qed

lemma parse_field_quoted:
  assumes "pos st = length pre" "charAt rest 0 \<noteq> Some 0x22"
  shows "\<exists>st'. parse_field (pre @ 0x22 # escape_quotes cs @ 0x22 # rest) sep st = (Some cs, st') \<and>
           pos st' = length pre + length (escape_quotes cs) + 2"
proof -
  let ?input = "pre @ 0x22 # escape_quotes cs @ 0x22 # rest"
  have open_q: "charAt ?input (pos st) = Some 0x22"
    using assms(1) charAt_here[of pre] by simp
  obtain st2 where loop:
    "chars_loop ((pre @ [0x22]) @ escape_quotes cs @ 0x22 # rest) (st\<lparr>pos := pos st + 1\<rparr>) []
       = ([] @ cs, st2)"
    and p2: "pos st2 = length (pre @ [0x22]) + length (escape_quotes cs)"
    using chars_loop_quoted[of "st\<lparr>pos := pos st + 1\<rparr>" "pre @ [0x22]" rest cs "[]"] assms
    by auto
  have close_q: "charAt ?input (pos st2) = Some 0x22"
    using p2 charAt_here[of "pre @ 0x22 # escape_quotes cs" "0x22" rest] by simp
  show ?thesis
    using open_q loop close_q p2 by (simp add: parse_field_def Let_def)
qed

lemma chars_loop_no_quote:
  "pos st = length pre \<Longrightarrow> (\<forall>c\<in>set cs. c \<noteq> 0x22) \<Longrightarrow>
     \<exists>st'. chars_loop (pre @ cs) st acc = (acc @ cs, st') \<and> pos st' = length (pre @ cs)"
proof (induction cs arbitrary: pre st acc)
  case Nil
  obtain st' where "parse_char pre st = (None, st')" "pos st' = length pre"
    using parse_char_end[of st pre] Nil by blast
  then show ?case by (subst chars_loop.simps) simp
next
  case (Cons c cs)
  let ?st1 = "(matchFailed ExpQuote st)\<lparr>pos := length pre + 1\<rparr>"
  have c: "c \<noteq> 0x22" using Cons.prems(2) by simp
  have step: "parse_char (pre @ c # cs) st = (Some c, ?st1)"
    using Cons.prems(1) c by (rule parse_char_plain)
  obtain st' where
    "chars_loop ((pre @ [c]) @ cs) ?st1 (acc @ [c]) = ((acc @ [c]) @ cs, st')"
    "pos st' = length ((pre @ [c]) @ cs)"
    using Cons.IH[of ?st1 "pre @ [c]" "acc @ [c]"] Cons.prems(2) by auto
  then show ?case using step by (subst chars_loop.simps) simp
qed

lemma unquoted_loop_all:
  "pos st = length pre \<Longrightarrow> (\<forall>c\<in>set cs. c \<noteq> sep \<and> c \<noteq> 0x0A \<and> c \<noteq> 0x0D) \<Longrightarrow>
     \<exists>st'. unquoted_loop (pre @ cs) sep st acc = (acc @ cs, st') \<and> pos st' = length (pre @ cs)"
proof (induction cs arbitrary: pre st acc)
  case Nil
  then show ?case
    using charAt_end[of pre] by (subst unquoted_loop.simps) simp
next
  case (Cons c cs)
  have here: "charAt (pre @ c # cs) (pos st) = Some c"
    using Cons.prems(1) charAt_here[of pre c cs] by simp
  obtain st' where
    "unquoted_loop ((pre @ [c]) @ cs) sep (st\<lparr>pos := pos st + 1\<rparr>) (acc @ [c]) = ((acc @ [c]) @ cs, st')"
    "pos st' = length ((pre @ [c]) @ cs)"
    using Cons.IH[of "st\<lparr>pos := pos st + 1\<rparr>" "pre @ [c]" "acc @ [c]"] Cons.prems by auto
  then show ?case using here Cons.prems(2)
    by (subst unquoted_loop.simps) simp
qed

lemma parse_field_unterminated:
  assumes "pos st = 0"
    and "\<forall>c\<in>set body. c \<noteq> 0x22 \<and> c \<noteq> sep \<and> c \<noteq> 0x0A \<and> c \<noteq> 0x0D"
    and "sep \<noteq> 0x22"
  shows "\<exists>st'. parse_field (0x22 # body) sep st = (Some (0x22 # body), st') \<and>
           pos st' = length (0x22 # body)"
proof -
  let ?input = "0x22 # body"
  have open_q: "charAt ?input (pos st) = Some 0x22"
    using assms(1) by (simp add: charAt_def)
  obtain st2 where loop:
    "chars_loop ([0x22] @ body) (st\<lparr>pos := pos st + 1\<rparr>) [] = ([] @ body, st2)"
    and p2: "pos st2 = length ([0x22] @ body)"
    using chars_loop_no_quote[of "st\<lparr>pos := pos st + 1\<rparr>" "[0x22]" body "[]"] assms by auto
  have no_close: "charAt ?input (pos st2) = None"
    using p2 charAt_end[of ?input] by simp
  let ?st1 = "(matchFailed ExpQuote st2)\<lparr>pos := pos st\<rparr>"
  obtain st3 where unq:
    "unquoted_loop ([] @ ?input) sep ?st1 [] = ([] @ ?input, st3)"
    and p3: "pos st3 = length ([] @ ?input)"
    using unquoted_loop_all[of ?st1 "[]" ?input sep "[]"] assms by auto
  show ?thesis
    using open_q loop no_close unq p3 by (simp add: parse_field_def Let_def)
qed

lemma line_loop_end:
  "pos st = length input \<Longrightarrow> line_loop input sep st acc = (acc, matchFailed ExpAnyCharacter st)"
  using charAt_end[of input] by (subst line_loop.simps) simp

lemma sv_loop_end:
  "pos st = length input \<Longrightarrow> sv_loop input sep st acc = (acc, matchFailed ExpLineBreak st)"
  using charAt_end[of input] by (subst sv_loop.simps) simp

lemma line_breaks_end:
  "pos st = length input \<Longrightarrow> line_breaks input st = matchFailed ExpLineBreak st"
  using charAt_end[of input] by (subst line_breaks.simps) simp

lemma line_breaks_none:
  "charAt input (pos st) = Some c \<Longrightarrow> c \<noteq> 0x0A \<Longrightarrow> c \<noteq> 0x0D \<Longrightarrow>
     line_breaks input st = matchFailed ExpLineBreak st"
  by (subst line_breaks.simps) simp

section \<open>An opening quote that is never closed\<close>

text \<open>
  The furthest failure: \<open>rightmostFailuresPos\<close> never decreases and stays within the
  input. Once the quoted alternative of \<open>parse_field\<close> has run to the end of the input
  without finding the closing quote, the furthest failure is the end of the input, and
  it stays there until \<open>parse\<close> returns.
\<close>

definition bounded :: "jsstring \<Rightarrow> pstate \<Rightarrow> bool" where
  \<comment> \<open>the cursor and the rightmost failure are positions of the input, its end included\<close>
  "bounded input st = (pos st \<le> length input \<and> rightmostFailuresPos st \<le> length input)"


lemma rfp_pos_update [simp]: "rightmostFailuresPos (st\<lparr>pos := p\<rparr>) = rightmostFailuresPos st"
  by simp


lemma bounded_pos: "bounded input st \<Longrightarrow> p \<le> length input \<Longrightarrow> bounded input (st\<lparr>pos := p\<rparr>)"
  by (simp add: bounded_def)








































lemma parse_unterminated_single_field:
  assumes "\<forall>c\<in>set body. c \<noteq> 0x22 \<and> c \<noteq> separator_of r \<and> c \<noteq> 0x0A \<and> c \<noteq> 0x0D"
  shows "parse (0x22 # body) r = Inr [[0x22 # body]]"
proof -
  let ?input = "0x22 # body" and ?sep = "separator_of r"
  let ?st0 = "\<lparr>pos = 0, rightmostFailuresPos = 0, rightmostFailuresExpected = []\<rparr>"
  have sep: "?sep \<noteq> 0x22" by (cases r) simp_all
  have first: "charAt ?input (pos ?st0) = Some 0x22" by (simp add: charAt_def)
  have lb: "line_breaks ?input ?st0 = matchFailed ExpLineBreak ?st0"
    using first by (rule line_breaks_none) simp_all
  obtain st1 where fld:
    "parse_field ?input ?sep (matchFailed ExpLineBreak ?st0) = (Some ?input, st1)"
    and p1: "pos st1 = length ?input"
    using parse_field_unterminated[of "matchFailed ExpLineBreak ?st0" body ?sep] assms sep
    by auto
  have line: "parse_line ?input ?sep (matchFailed ExpLineBreak ?st0)
                = (Some [?input], matchFailed ExpAnyCharacter st1)"
    using fld line_loop_end[OF p1] by (simp add: parse_line_def Let_def)
  have sv: "parse_sv ?input ?sep ?st0
      = (Some [[?input]],
         matchFailed ExpLineBreak (matchFailed ExpLineBreak (matchFailed ExpAnyCharacter st1)))"
    using lb line p1 by (simp add: parse_sv_def Let_def sv_loop_end line_breaks_end)
  show ?thesis
    using sv p1 by (simp add: parse_def parse_rule_def Let_def)
qed

section \<open>Claims about quoted fields\<close>

text \<open>
  C3: a quoted field may contain the separator and line breaks, which are kept as they
  are, and a doubled quote decodes to one quote. In general: wherever a field starts
  with a quote, followed by a value written with its quotes doubled, followed by a quote
  that is not itself followed by a quote, \<open>parse_field\<close> returns exactly that value
  (whatever characters it holds) and stops after the closing quote. The two examples of
  the specification are instances.
\<close>

theorem quoted_field_decoding:
  "(pos st = length pre \<and> charAt rest 0 \<noteq> Some 0x22 \<longrightarrow>
      fst (parse_field (pre @ 0x22 # escape_quotes v @ 0x22 # rest) sep st) = Some v \<and>
      pos (snd (parse_field (pre @ 0x22 # escape_quotes v @ 0x22 # rest) sep st))
        = length pre + length (escape_quotes v) + 2) \<and>
   parse (js ''\"a,b\",c'' @ LF @ js ''1,2'') comma
     = Inr [[js ''a,b'', js ''c''], [js ''1'', js ''2'']] \<and>
   fst (parse_field (js ''\"he said \"\"hi\"\"\"'') 0x2C
          \<lparr>pos = 0, rightmostFailuresPos = 0, rightmostFailuresExpected = []\<rparr>)
     = Some (js ''he said \"hi\"'')"
proof (intro conjI impI)
  assume h: "pos st = length pre \<and> charAt rest 0 \<noteq> Some 0x22"
  then obtain st' where
    "parse_field (pre @ 0x22 # escape_quotes v @ 0x22 # rest) sep st = (Some v, st')"
    "pos st' = length pre + length (escape_quotes v) + 2"
    using parse_field_quoted[of st pre rest v sep] by blast
  then show "fst (parse_field (pre @ 0x22 # escape_quotes v @ 0x22 # rest) sep st) = Some v"
    and "pos (snd (parse_field (pre @ 0x22 # escape_quotes v @ 0x22 # rest) sep st))
        = length pre + length (escape_quotes v) + 2"
    by simp_all
next
  show "parse (js ''\"a,b\",c'' @ LF @ js ''1,2'') comma
     = Inr [[js ''a,b'', js ''c''], [js ''1'', js ''2'']]"
    by (simp add: parser_eval)
next
  show "fst (parse_field (js ''\"he said \"\"hi\"\"\"'') 0x2C
          \<lparr>pos = 0, rightmostFailuresPos = 0, rightmostFailuresExpected = []\<rparr>)
     = Some (js ''he said \"hi\"'')"
    by (simp add: parser_eval)
qed

theorem quoted_field_decoding_witness:
  "fst (parse_field (js ''x,'' @ 0x22 # escape_quotes (js ''a,\"b\"'' @ LF @ js ''c'') @ 0x22 # js '',y'')
          0x2C \<lparr>pos = 2, rightmostFailuresPos = 0, rightmostFailuresExpected = []\<rparr>)
     = Some (js ''a,\"b\"'' @ LF @ js ''c'')"
proof -
  let ?st = "\<lparr>pos = 2, rightmostFailuresPos = 0, rightmostFailuresExpected = []\<rparr>"
  have h: "pos ?st = length (js ''x,'') \<and> charAt (js '',y'') 0 \<noteq> Some 0x22"
    by (simp add: charAt_def js_Nil js_Cons)
  show ?thesis
    using quoted_field_decoding[of ?st "js ''x,''" "js '',y''" "js ''a,\"b\"'' @ LF @ js ''c''" "0x2C"] h
    by blast
qed




section \<open>Claims about separator detection, cleaning and coercion\<close>

lemma detectSeparator_Some: "\<exists>c. detectSeparator csv = Some c"
  by (simp add: detectSeparator_def separators_def)

lemma detectSeparator_none_found:
  "occurrences 0x2C csv = 0 \<Longrightarrow> occurrences 0x3B csv = 0 \<Longrightarrow> occurrences 0x09 csv = 0 \<Longrightarrow>
     detectSeparator csv = Some 0x2C"
  by (simp add: detectSeparator_def separators_def)

lemma resolve_separator_Some: "\<exists>sep. resolve_separator opts csv = Some sep"
  using detectSeparator_Some[of csv]
  by (auto simp: resolve_separator_def split: option.splits)

text \<open>
  C2: the claim asks for \<open>SeparatorUndetectable\<close> when no candidate occurs in the text.
  \<open>detectSeparator\<close> never returns \<open>undefined\<close>: in its first round \<open>!sepMax\<close> holds and the
  comma is taken, whatever the counts. So a text without any candidate is read with the
  comma, \<open>convert\<close> never fails with \<open>SeparatorUndetectable\<close>, and \<open>convert("abc")\<close> returns
  the empty array.
\<close>

theorem separator_always_detected:
  "(occurrences 0x2C csv = 0 \<and> occurrences 0x3B csv = 0 \<and> occurrences 0x09 csv = 0 \<longrightarrow>
      detectSeparator csv = Some 0x2C) \<and>
   convert JSON_parse csv opts \<noteq> Inl SeparatorUndetectable \<and>
   convert JSON_parse (js ''abc'') default_options = Inr (Records [])"
proof (intro conjI impI)
  assume "occurrences 0x2C csv = 0 \<and> occurrences 0x3B csv = 0 \<and> occurrences 0x09 csv = 0"
  then show "detectSeparator csv = Some 0x2C" by (simp add: detectSeparator_none_found)
next
  obtain sep where "resolve_separator opts csv = Some sep"
    using resolve_separator_Some by blast
  then show "convert JSON_parse csv opts \<noteq> Inl SeparatorUndetectable"
    by (simp add: convert_def convert_table_def Let_def split: option.splits sum.splits list.splits)
next
  show "convert JSON_parse (js ''abc'') default_options = Inr (Records [])"
    by (simp add: convert_eval parser_eval uniquify_eval)
qed

theorem separator_always_detected_witness:
  "detectSeparator (js ''abc'') = Some 0x2C \<and>
   convert JSON_parse_integers (js ''abc'') default_options = Inr (Records [])"
proof -
  have "occurrences 0x2C (js ''abc'') = 0 \<and> occurrences 0x3B (js ''abc'') = 0 \<and>
        occurrences 0x09 (js ''abc'') = 0"
    by (simp add: occurrences_def js_Nil js_Cons)
  then show ?thesis
    using separator_always_detected[of "js ''abc''" JSON_parse_integers] by blast
qed

text \<open>
  C5, as the code has it. The pass \<open>.replace(/(^")|("$)/g, '')\<close>, applied after \<open>trim\<close> to
  every header value and every cell, removes a leading double-quote if there is one and a
  trailing double-quote if there is one, each on its own: a surrounding pair is removed,
  a quote at one end only is removed too, and a value with a quote at neither end is left
  as it is.
\<close>

theorem strip_quotes_each_end:
  "strip_quotes (0x22 # body @ [0x22]) = body \<and>
   ((body = [] \<or> last body \<noteq> 0x22) \<longrightarrow> strip_quotes (0x22 # body) = body) \<and>
   ((body = [] \<or> hd body \<noteq> 0x22) \<longrightarrow> strip_quotes (body @ [0x22]) = body) \<and>
   ((s = [] \<or> hd s \<noteq> 0x22 \<and> last s \<noteq> 0x22) \<longrightarrow> strip_quotes s = s)"
proof (intro conjI impI)
  show "strip_quotes (0x22 # body @ [0x22]) = body"
    by (simp add: strip_quotes_def)
next
  assume "body = [] \<or> last body \<noteq> 0x22"
  then show "strip_quotes (0x22 # body) = body"
    by (auto simp: strip_quotes_def)
next
  assume "body = [] \<or> hd body \<noteq> 0x22"
  then show "strip_quotes (body @ [0x22]) = body"
    by (cases body) (auto simp: strip_quotes_def)
next
  assume "s = [] \<or> hd s \<noteq> 0x22 \<and> last s \<noteq> 0x22"
  then show "strip_quotes s = s"
    by (cases s) (auto simp: strip_quotes_def)
qed

theorem strip_quotes_each_end_witness:
  "strip_quotes (0x22 # js ''abc'') = js ''abc'' \<and>
   strip_quotes (js ''abc'' @ [0x22]) = js ''abc'' \<and>
   strip_quotes (js ''a\"b'') = js ''a\"b''"
proof -
  have h1: "js ''abc'' = [] \<or> last (js ''abc'') \<noteq> 0x22" by (simp add: js_Nil js_Cons)
  have h2: "js ''abc'' = [] \<or> hd (js ''abc'') \<noteq> 0x22" by (simp add: js_Nil js_Cons)
  have h3: "js ''a\"b'' = [] \<or> hd (js ''a\"b'') \<noteq> 0x22 \<and> last (js ''a\"b'') \<noteq> 0x22"
    by (simp add: js_Nil js_Cons)
  show ?thesis
    using strip_quotes_each_end[of "js ''abc''" "js ''a\"b''"] h1 h2 h3 by blast
qed

text \<open>
  The claim as the specification states it fails: a quote at one end only is stripped,
  in header values and in cells.
\<close>

theorem strip_quotes_pair_only_counterexample:
  "clean (js ''\"abc'') \<noteq> js ''\"abc'' \<and> clean (js ''abc\"'') \<noteq> js ''abc\"'' \<and>
   clean (js ''\"abc'') = js ''abc'' \<and> clean (js ''abc\"'') = js ''abc'' \<and>
   convert JSON_parse_integers (js ''\"k'' @ LF @ js ''v'') default_options
     = Inr (Records [[js ''k'' \<mapsto> JString (js ''v'')]]) \<and>
   convert JSON_parse_integers (js ''k\"'' @ LF @ js ''v\"'') default_options
     = Inr (Records [[js ''k'' \<mapsto> JString (js ''v'')]])"
  by (simp add: convert_eval parser_eval uniquify_eval)

text \<open>
  C8: with \<open>parseNumbers\<close> set and \<open>parseJSON\<close> unset, a cell whose cleaned text is \<open>42\<close>
  is a number to \<open>value - 0\<close>, so it is handed to \<open>JSON.parse\<close> and yields the number 42
  (given that the host's \<open>JSON.parse\<close> decodes \<open>42\<close> to 42); \<open>42a\<close> is \<open>NaN\<close> to \<open>value - 0\<close>
  and stays the string \<open>42a\<close>, whatever \<open>JSON.parse\<close> does; the empty string never counts
  as a number and is stored as the empty string.
\<close>

theorem parseNumbers_cell_values:
  assumes "parseNumbers opts" and "\<not> parseJSON opts"
    and "JSON_parse (js ''42'') = Some (JNumber 42)"
  shows "cell_value JSON_parse opts (js ''42'') = JNumber 42 \<and>
         cell_value JSON_parse opts (js ''42a'') = JString (js ''42a'') \<and>
         number_isNaN [] \<and>
         cell_value JSON_parse opts [] = JString [] \<and>
         convert JSON_parse (js ''n'' @ LF @ js ''42'' @ LF @ js ''42a'')
             (default_options\<lparr>parseNumbers := True\<rparr>)
           = Inr (Records [[js ''n'' \<mapsto> JNumber 42], [js ''n'' \<mapsto> JString (js ''42a'')]])"
proof -
  have n42: "\<not> number_isNaN (js ''42'')"
    by (simp add: number_isNaN_def string_numeric_literal_def trim_def is_white_space_def
          non_decimal_integer_literal_def str_unsigned_decimal_literal_def strip_sign_def
          exponent_part_opt_def is_digit_def js_Nil js_Cons)
  have n42a: "number_isNaN (js ''42a'')"
    by (simp add: number_isNaN_def string_numeric_literal_def trim_def is_white_space_def
          non_decimal_integer_literal_def str_unsigned_decimal_literal_def strip_sign_def
          exponent_part_opt_def is_digit_def js_Nil js_Cons)
  have empty: "number_isNaN []" by (simp add: number_isNaN_def)
  have J: "JSON_parse [0x34, 0x32] = Some (JNumber 42)"
    using assms(3) by (simp add: js_Nil js_Cons)
  have conv: "convert JSON_parse (js ''n'' @ LF @ js ''42'' @ LF @ js ''42a'')
             (default_options\<lparr>parseNumbers := True\<rparr>)
           = Inr (Records [[js ''n'' \<mapsto> JNumber 42], [js ''n'' \<mapsto> JString (js ''42a'')]])"
    using J
    by (simp add: convert_eval parser_eval uniquify_eval string_numeric_literal_def
          non_decimal_integer_literal_def str_unsigned_decimal_literal_def strip_sign_def
          exponent_part_opt_def is_digit_def)
  show ?thesis
    using assms n42 n42a empty conv by (simp add: cell_value_def)
qed

theorem parseNumbers_cell_values_witness:
  "cell_value JSON_parse_integers (default_options\<lparr>parseNumbers := True\<rparr>) (js ''42'') = JNumber 42 \<and>
   cell_value JSON_parse_integers (default_options\<lparr>parseNumbers := True\<rparr>) (js ''42a'')
     = JString (js ''42a'')"
proof -
  let ?opts = "default_options\<lparr>parseNumbers := True\<rparr>"
  have h1: "parseNumbers ?opts" and h2: "\<not> parseJSON ?opts"
    by (simp_all add: default_options_def)
  have h3: "JSON_parse_integers (js ''42'') = Some (JNumber 42)"
    by (simp add: JSON_parse_integers_def is_digit_def string_to_number_def js_Nil js_Cons)
  show ?thesis
    using parseNumbers_cell_values[of ?opts JSON_parse_integers, OF h1 h2 h3] by blast
qed

section \<open>Properties of the parsed table and of the Records\<close>

lemma parse_line_row: "parse_line input sep st = (Some row, st') \<Longrightarrow> row \<noteq> []"
  by (auto simp: parse_line_def Let_def split: prod.splits option.splits if_splits)

lemma unquoted_loop_stop:
  "charAt input (pos st) = None \<or> charAt input (pos st) = Some 0x0A \<or> charAt input (pos st) = Some 0x0D
     \<Longrightarrow> unquoted_loop input sep st acc = (acc, matchFailed ExpNotLineBreak st)"
  by (subst unquoted_loop.simps) auto

lemma parse_line_empty:
  assumes "charAt input (pos st) = None \<or> charAt input (pos st) = Some 0x0A
           \<or> charAt input (pos st) = Some 0x0D"
  shows "fst (parse_line input (separator_of r) st) = None"
proof -
  let ?sep = "separator_of r"
  let ?st1 = "matchFailed ExpQuote st"
  let ?st2 = "matchFailed ExpNotLineBreak ?st1"
  have sep: "?sep \<noteq> 0x0A" "?sep \<noteq> 0x0D" by (cases r; simp)+
  have noq: "charAt input (pos st) \<noteq> Some 0x22" using assms by auto
  have fld: "parse_field input ?sep st = (Some [], ?st2)"
    using noq assms unquoted_loop_stop[of input ?st1 ?sep "[]"]
    by (simp add: parse_field_def Let_def)
  have "fst (line_loop input ?sep ?st2 []) = []"
    using assms sep by (subst line_loop.simps) (auto split: option.splits)
  then obtain st3 where loop: "line_loop input ?sep ?st2 [] = ([], st3)"
    by (cases "line_loop input ?sep ?st2 []") simp
  show ?thesis
    using fld loop by (simp add: parse_line_def Let_def)
qed

lemma sv_loop_rows:
  "sv_loop input sep st acc = (rows, st') \<Longrightarrow> (\<forall>row\<in>set acc. row \<noteq> []) \<Longrightarrow>
     \<forall>row\<in>set rows. row \<noteq> []"
proof (induction input sep st acc arbitrary: rows st' rule: sv_loop.induct)
  case (1 input separator st acc)
  show ?case
  proof (cases "charAt input (pos st)")
    case None
    then show ?thesis using "1.prems" by (subst (asm) sv_loop.simps) auto
  next
    case (Some c)
    show ?thesis
    proof (cases "c = 0x0A \<or> c = 0x0D")
      case False
      then show ?thesis using "1.prems" Some by (subst (asm) sv_loop.simps) auto
    next
      case True
      let ?st1 = "line_breaks input (st\<lparr>pos := pos st + 1\<rparr>)"
      obtain res st2 where pl: "parse_line input separator ?st1 = (res, st2)"
        by (cases "parse_line input separator ?st1")
      show ?thesis
      proof (cases res)
        case None
        then show ?thesis using "1.prems" Some True pl
          by (subst (asm) sv_loop.simps) (auto simp: Let_def)
      next
        case (Some data)
        have row: "data \<noteq> []" using pl Some parse_line_row by blast
        have "sv_loop input separator st2 (acc @ [data]) = (rows, st')"
          using "1.prems"(1) \<open>charAt input (pos st) = Some c\<close> True pl Some
          by (subst (asm) sv_loop.simps) (auto simp: Let_def)
        moreover have "\<forall>row\<in>set (acc @ [data]). row \<noteq> []" using "1.prems"(2) row by simp
        ultimately show ?thesis
          using "1.IH"[OF \<open>charAt input (pos st) = Some c\<close> True refl pl[symmetric] Some]
          by blast
      qed
    qed
  qed
qed

lemma parse_sv_rows:
  assumes "parse_sv input sep st = (Some table, st')"
  shows "table \<noteq> [] \<and> (\<forall>row\<in>set table. row \<noteq> [])"
proof -
  obtain first st2 rest st3 where
    line: "parse_line input sep (line_breaks input st) = (Some first, st2)"
    and loop: "sv_loop input sep st2 [] = (rest, st3)"
    and table: "table = first # rest"
    using assms
    by (auto simp: parse_sv_def Let_def split: prod.splits option.splits)
  have "first \<noteq> []" using line by (rule parse_line_row)
  moreover have "\<forall>row\<in>set rest. row \<noteq> []" using loop by (rule sv_loop_rows) simp
  ultimately show ?thesis using table by simp
qed

lemma parse_rows:
  "parse input r = Inr table \<Longrightarrow> table \<noteq> [] \<and> (\<forall>row\<in>set table. row \<noteq> [])"
  by (auto simp: parse_def parse_rule_def Let_def split: prod.splits option.splits if_splits
        dest: parse_sv_rows)

lemma longest_step:
  "length acc \<le> length (foldl (\<lambda>a b. if length a > length b then a else b) acc args) \<and>
   (\<forall>a\<in>set args. length a \<le> length (foldl (\<lambda>a b. if length a > length b then a else b) acc args))"
proof (induction args arbitrary: acc)
  case Nil
  show ?case by simp
next
  case (Cons b args)
  let ?acc' = "if length acc > length b then acc else b"
  have "length acc \<le> length ?acc'" "length b \<le> length ?acc'" by simp_all
  then show ?case using Cons.IH[of ?acc'] by (auto intro: order_trans)
qed

lemma longest_ge: "a \<in> set args \<Longrightarrow> length a \<le> length (longest args)"
  using longest_step[of "[]" args] by (simp add: longest_def)

lemma zip_js_header:
  assumes "args \<noteq> []" and "\<forall>a\<in>set args. a \<noteq> [] \<and> None \<notin> set a"
  shows "\<exists>keys rows. zip_js args = keys # rows \<and> keys \<noteq> [] \<and> None \<notin> set keys"
proof -
  obtain a where a: "a \<in> set args" using assms(1) by (cases args) auto
  have "a \<noteq> []" using a assms(2) by blast
  then have "1 \<le> length a" by (simp add: Suc_le_eq)
  then have pos: "0 < length (longest args)" using longest_ge[OF a] by linarith
  then have upt: "[0..<length (longest args)] = 0 # [1..<length (longest args)]"
    by (simp add: upt_rec)
  let ?keys = "map (\<lambda>array. if 0 < length array then array ! 0 else None) args"
  have "zip_js args = ?keys # map (\<lambda>i. map (\<lambda>array. if i < length array then array ! i else None) args)
                                [1..<length (longest args)]"
    by (simp add: zip_js_def upt)
  moreover have "?keys \<noteq> []" using assms(1) by simp
  moreover have "None \<notin> set ?keys"
  proof
    assume "None \<in> set ?keys"
    then obtain array where mem: "array \<in> set args"
      and none: "(if 0 < length array then array ! 0 else None) = None"
      by auto
    have ne: "array \<noteq> []" and full: "None \<notin> set array" using mem assms(2) by blast+
    have m: "array ! 0 \<in> set array" using ne by simp
    have "array ! 0 = None" using none ne by simp
    then show False using m full by metis
  qed
  ultimately show ?thesis by blast
qed

lemma cells_of_table:
  "table \<noteq> [] \<and> (\<forall>row\<in>set table. row \<noteq> []) \<Longrightarrow>
     map (map Some) table \<noteq> [] \<and> (\<forall>a\<in>set (map (map Some) table). a \<noteq> [] \<and> None \<notin> set a)"
  by auto

lemma convert_table_header:
  "a = keys # rows \<Longrightarrow> keys \<noteq> [] \<Longrightarrow> None \<notin> set keys \<Longrightarrow>
     convert_table JSON_parse opts a = Inr (build_json JSON_parse opts (header_keys (map the keys)) rows)"
  by (simp add: convert_table_def)

lemma convert_no_header_error: "convert JSON_parse csv opts \<noteq> Inl EmptyHeader"
proof (cases "\<exists>sep r table. resolve_separator opts csv = Some sep \<and> start_rule sep = Some r
                 \<and> parse csv r = Inr table \<and> csv \<noteq> [] \<and> \<not> returnArray opts")
  case False
  then show ?thesis
    by (auto simp: convert_def Let_def split: option.splits sum.splits)
next
  case True
  then obtain sep r table where h: "resolve_separator opts csv = Some sep" "start_rule sep = Some r"
    "parse csv r = Inr table" "csv \<noteq> []" "\<not> returnArray opts" by blast
  let ?cells = "map (map Some) table"
  have cells: "?cells \<noteq> [] \<and> (\<forall>a\<in>set ?cells. a \<noteq> [] \<and> None \<notin> set a)"
    using parse_rows[OF h(3)] by (intro cells_of_table)
  let ?a = "if transpose_option opts then zip_js ?cells else ?cells"
  have "\<exists>keys rows. ?a = keys # rows \<and> keys \<noteq> [] \<and> None \<notin> set keys"
  proof (cases "transpose_option opts")
    case True
    then show ?thesis using zip_js_header[of ?cells] cells by simp
  next
    case False
    obtain row rest where "?cells = row # rest" using cells by (cases ?cells) auto
    then show ?thesis using False cells by auto
  qed
  then obtain keys rows where a: "?a = keys # rows" "keys \<noteq> []" "None \<notin> set keys" by blast
  have "convert JSON_parse csv opts = convert_table JSON_parse opts ?a"
    using h by (simp add: convert_def Let_def)
  then show ?thesis using convert_table_header[OF a] by simp
qed

definition record_of ::
  "(jsstring \<Rightarrow> jsvalue option) \<Rightarrow> options \<Rightarrow> jsstring list \<Rightarrow> cell list \<Rightarrow> jsrecord" where
  \<comment> \<open>the Record of one row: every header key with the value of its cell\<close>
  "record_of JSON_parse opts keys cells =
     map_of (map (\<lambda>i. (keys ! i, cell_value JSON_parse opts (clean (cell_at cells i))))
                 [0..<length keys])"

lemma nth_upt_keys: "m \<le> length keys \<Longrightarrow> map (nth keys) [0..<m] = take m keys"
proof -
  assume m: "m \<le> length keys"
  have "take m (map (nth keys) [0..<length keys]) = map (nth keys) [0..<m]"
    using m by (simp add: take_map)
  then show ?thesis by (simp add: map_nth)
qed

lemma record_of_dom: "dom (record_of JSON_parse opts keys cells) = set keys"
proof -
  let ?g = "\<lambda>i. (keys ! i, cell_value JSON_parse opts (clean (cell_at cells i)))"
  have "map fst (map ?g [0..<length keys]) = keys" by (simp add: comp_def map_nth)
  then have "fst ` set (map ?g [0..<length keys]) = set keys" by (metis set_map)
  then show ?thesis by (simp only: record_of_def dom_map_of_conv_image_fst)
qed

lemma record_of_at:
  assumes "distinct keys" "i < length keys"
  shows "record_of JSON_parse opts keys cells (keys ! i)
           = Some (cell_value JSON_parse opts (clean (cell_at cells i)))"
proof -
  let ?g = "\<lambda>i. (keys ! i, cell_value JSON_parse opts (clean (cell_at cells i)))"
  have "map fst (map ?g [0..<length keys]) = keys" by (simp add: comp_def map_nth)
  then have d: "distinct (map fst (map ?g [0..<length keys]))" using assms(1) by simp
  have mem: "?g i \<in> set (map ?g [0..<length keys])" using assms(2) by simp
  show ?thesis
    unfolding record_of_def by (rule map_of_is_SomeI[OF d mem])
qed

lemma map_of_snoc_fresh:
  assumes "k \<notin> dom (map_of xs)"
  shows "map_of (xs @ [(k, v)]) = (map_of xs)(k \<mapsto> v)"
proof -
  have "map_of (xs @ [(k, v)]) = Map.empty(k \<mapsto> v) ++ map_of xs" by simp
  also have "\<dots> = (Map.empty ++ map_of xs)(k \<mapsto> v)"
    using assms by (rule map_add_upd_left)
  finally show ?thesis by simp
qed

lemma build_row_prefix:
  assumes "\<not> hash opts" "distinct keys" "js ''__proto__'' \<notin> set keys" "m \<le> length keys"
  shows "fold (\<lambda>i (row, hashKey).
             let v = clean (cell_at cells i) in
             if hash opts \<and> i = 0 then (row, Some v)
             else (set_property row (keys ! i) (cell_value JSON_parse opts v), hashKey))
          [0..<m] (Map.empty, h)
       = (map_of (map (\<lambda>i. (keys ! i, cell_value JSON_parse opts (clean (cell_at cells i)))) [0..<m]), h)"
  using assms(4)
proof (induction m)
  case 0
  show ?case by simp
next
  case (Suc m)
  let ?f = "\<lambda>i (row, hashKey).
             let v = clean (cell_at cells i) in
             if hash opts \<and> i = 0 then (row, Some v)
             else (set_property row (keys ! i) (cell_value JSON_parse opts v), hashKey)"
  let ?val = "\<lambda>i. cell_value JSON_parse opts (clean (cell_at cells i))"
  let ?xs = "map (\<lambda>i. (keys ! i, ?val i)) [0..<m]"
  have m: "m < length keys" using Suc.prems by simp
  have np: "keys ! m \<noteq> js ''__proto__''" using assms(3) m by (metis nth_mem)
  have fsts: "map fst ?xs = take m keys"
    using m nth_upt_keys[of m keys] by (simp add: comp_def)
  have notin: "keys ! m \<notin> set (take m keys)"
  proof
    assume "keys ! m \<in> set (take m keys)"
    then obtain j where "j < m" "keys ! j = keys ! m"
      using m by (auto simp: in_set_conv_nth)
    then show False using assms(2) m by (simp add: nth_eq_iff_index_eq)
  qed
  have "dom (map_of ?xs) = fst ` set ?xs" by (rule dom_map_of_conv_image_fst)
  also have "\<dots> = set (map fst ?xs)" by (simp only: set_map)
  also have "\<dots> = set (take m keys)" by (simp only: fsts)
  finally have fresh: "keys ! m \<notin> dom (map_of ?xs)" using notin by simp
  have ih: "fold ?f [0..<m] (Map.empty, h) = (map_of ?xs, h)"
    using Suc.IH m by simp
  have "fold ?f [0..<Suc m] (Map.empty, h) = ?f m (fold ?f [0..<m] (Map.empty, h))"
    by simp
  also have "\<dots> = ?f m (map_of ?xs, h)" by (simp only: ih)
  also have "\<dots> = ((map_of ?xs)(keys ! m \<mapsto> ?val m), h)"
    using assms(1) np by (simp add: set_property_def Let_def)
  also have "(map_of ?xs)(keys ! m \<mapsto> ?val m) = map_of (?xs @ [(keys ! m, ?val m)])"
    using map_of_snoc_fresh[OF fresh] by simp
  also have "?xs @ [(keys ! m, ?val m)] = map (\<lambda>i. (keys ! i, ?val i)) [0..<Suc m]"
    by simp
  finally show ?case .
qed

lemma build_row_plain:
  assumes "\<not> hash opts" "distinct keys" "js ''__proto__'' \<notin> set keys"
  shows "build_row JSON_parse opts keys cells h = (record_of JSON_parse opts keys cells, h)"
  unfolding build_row_def record_of_def
  using build_row_prefix[OF assms, of "length keys"] by simp

lemma build_json_fold:
  assumes "\<not> hash opts" "distinct keys" "js ''__proto__'' \<notin> set keys"
  shows "fold (\<lambda>cells (arr, obj, hashKey).
                let (row, hashKey') = build_row JSON_parse opts keys cells hashKey in
                if hash opts
                then (arr, set_property obj (case hashKey' of Some k \<Rightarrow> k | None \<Rightarrow> js ''undefined'') row, hashKey')
                else (arr @ [row], obj, hashKey'))
             rows (arr, obj, h)
         = (arr @ map (record_of JSON_parse opts keys) rows, obj, h)"
proof (induction rows arbitrary: arr)
  case Nil
  show ?case by simp
next
  case (Cons cells rows)
  show ?case
    using Cons.IH[of "arr @ [record_of JSON_parse opts keys cells]"] assms(1)
    by (simp add: build_row_plain[OF assms])
qed

lemma build_json_plain:
  assumes "\<not> hash opts" "distinct keys" "js ''__proto__'' \<notin> set keys"
  shows "build_json JSON_parse opts keys rows = Records (map (record_of JSON_parse opts keys) rows)"
  unfolding build_json_def
  using build_json_fold[OF assms, of JSON_parse rows "[]" Map.empty None] assms(1) by simp

lemma parse_empty: "parse [] r \<noteq> Inr table"
  by (cases r) (simp_all add: parser_eval)

section \<open>Claims about the table and the Records\<close>

text \<open>
  C10: when the parser succeeds, the table has at least one row and every row has at
  least one field; a line that would consist of one empty unquoted field (the cursor is at
  the end of the input or at a line break) does not parse as a line. Hence the header
  row that \<open>convert\<close> takes is never of length zero, transposed or not, and \<open>convert\<close> never
  fails with \<open>EmptyHeader\<close>.
\<close>

theorem parsed_table_rows_nonempty:
  "(parse input r = Inr table \<longrightarrow>
      table \<noteq> [] \<and> (\<forall>row\<in>set table. row \<noteq> []) \<and>
      (\<exists>keys rows. zip_js (map (map Some) table) = keys # rows \<and> keys \<noteq> [] \<and> None \<notin> set keys)) \<and>
   (charAt src (pos st) = None \<or> charAt src (pos st) = Some 0x0A
      \<or> charAt src (pos st) = Some 0x0D
      \<longrightarrow> fst (parse_line src (separator_of r) st) = None) \<and>
   convert JSON_parse csv opts \<noteq> Inl EmptyHeader"
proof (intro conjI impI)
  assume p: "parse input r = Inr table"
  show "table \<noteq> []" and "\<forall>row\<in>set table. row \<noteq> []"
    using parse_rows[OF p] by simp_all
  show "\<exists>keys rows. zip_js (map (map Some) table) = keys # rows \<and> keys \<noteq> [] \<and> None \<notin> set keys"
    using zip_js_header[of "map (map Some) table"] cells_of_table[OF parse_rows[OF p]] by simp
next
  assume "charAt src (pos st) = None \<or> charAt src (pos st) = Some 0x0A
      \<or> charAt src (pos st) = Some 0x0D"
  then show "fst (parse_line src (separator_of r) st) = None" by (rule parse_line_empty)
next
  show "convert JSON_parse csv opts \<noteq> Inl EmptyHeader"
    using convert_no_header_error by blast
qed

theorem parsed_table_rows_nonempty_witness:
  "parse (js ''a,b'' @ LF @ js ''1'') comma = Inr [[js ''a'', js ''b''], [js ''1'']] \<and>
   zip_js (map (map Some) [[js ''a'', js ''b''], [js ''1'']])
     = [[Some (js ''a''), Some (js ''1'')], [Some (js ''b''), None]] \<and>
   fst (parse_line (js ''a'' @ LF @ LF) (separator_of comma)
          \<lparr>pos = 2, rightmostFailuresPos = 0, rightmostFailuresExpected = []\<rparr>) = None \<and>
   convert JSON_parse_integers (js ''a,b'' @ LF @ js ''1'')
       (default_options\<lparr>transpose_option := True\<rparr>) \<noteq> Inl EmptyHeader"
proof -
  let ?input = "js ''a,b'' @ LF @ js ''1''"
  let ?st = "\<lparr>pos = 2, rightmostFailuresPos = 0, rightmostFailuresExpected = []\<rparr>"
  have p: "parse ?input comma = Inr [[js ''a'', js ''b''], [js ''1'']]"
    by (simp add: parser_eval)
  have c: "charAt (js ''a'' @ LF @ LF) (pos ?st) = None \<or> charAt (js ''a'' @ LF @ LF) (pos ?st) = Some 0x0A
      \<or> charAt (js ''a'' @ LF @ LF) (pos ?st) = Some 0x0D"
    by (simp add: charAt_def LF_def js_Nil js_Cons)
  have z: "zip_js (map (map Some) [[js ''a'', js ''b''], [js ''1'']])
     = [[Some (js ''a''), Some (js ''1'')], [Some (js ''b''), None]]"
    by (simp add: zip_js_def longest_def upt_rec)
  note t = parsed_table_rows_nonempty
      [of ?input comma "[[js ''a'', js ''b''], [js ''1'']]" "js ''a'' @ LF @ LF" ?st
          JSON_parse_integers ?input "default_options\<lparr>transpose_option := True\<rparr>"]
  have l: "fst (parse_line (js ''a'' @ LF @ LF) (separator_of comma) ?st) = None"
    using t c by blast
  have e: "convert JSON_parse_integers ?input (default_options\<lparr>transpose_option := True\<rparr>)
             \<noteq> Inl EmptyHeader"
    using t by blast
  show ?thesis using p z l e by blast
qed

text \<open>
  C7. A Record is an object literal filled by \<open>row[keys[i]] = value\<close>, one assignment
  for every header column. For the header \<open>__proto__\<close> that assignment reaches the setter
  inherited from \<open>Object.prototype\<close> and stores no property: the column is lost, and
  \<open>convert("__proto__,a\n1,2")\<close>, a rectangular input with two distinct header columns
  and one data row, returns one Record with the single key \<open>a\<close>. For every other header
  the Records are as the claim says. Let the table be the parsed table, transposed
  when the option \<open>transpose\<close> is set, with a header row of \<open>K\<close> fields and \<open>N\<close> further
  rows. When the header keys are pairwise distinct after de-duplication and none of them
  is \<open>__proto__\<close>, array-mode conversion (neither \<open>returnArray\<close> nor \<open>hash\<close>) returns exactly
  \<open>N\<close> Records, the Record of each row at the index of its row; every Record has exactly
  the \<open>K\<close> header keys, and under the key of column \<open>i\<close> it holds the value of the row's
  cell \<open>i\<close> (the empty string where the row has no such cell). Without \<open>transpose\<close>,
  \<open>N\<close> and \<open>K\<close> are the data rows and the header columns of the input.
\<close>

theorem array_mode_records:
  assumes "resolve_separator opts csv = Some sep" and "start_rule sep = Some r"
    and "parse csv r = Inr table"
    and "(if transpose_option opts then zip_js (map (map Some) table)
          else map (map Some) table) = map Some hdr # rows"
    and "\<not> returnArray opts" and "\<not> hash opts"
    and "distinct (header_keys hdr)" and "js ''__proto__'' \<notin> set (header_keys hdr)"
  shows "(\<exists>recs. convert JSON_parse csv opts = Inr (Records recs) \<and>
           length recs = length rows \<and>
           (\<forall>l<length rows.
              dom (recs ! l) = set (header_keys hdr) \<and>
              card (dom (recs ! l)) = length hdr \<and>
              (\<forall>i<length hdr.
                 (recs ! l) (header_keys hdr ! i)
                   = Some (cell_value JSON_parse opts (clean (cell_at (rows ! l) i)))))) \<and>
         convert JSON_parse_integers (js ''__proto__,a'' @ LF @ js ''1,2'') default_options
           = Inr (Records [[js ''a'' \<mapsto> JString (js ''2'')]])"
proof (rule conjI)
  let ?keys = "header_keys hdr" and ?cells = "map (map Some) table"
  let ?recs = "map (record_of JSON_parse opts ?keys) rows"
  have csv: "csv \<noteq> []" using assms(3) parse_empty by blast
  have cells: "?cells \<noteq> [] \<and> (\<forall>a\<in>set ?cells. a \<noteq> [] \<and> None \<notin> set a)"
    using parse_rows[OF assms(3)] by (intro cells_of_table)
  have "map Some hdr \<noteq> []"
  proof (cases "transpose_option opts")
    case True
    then have "zip_js ?cells = map Some hdr # rows" using assms(4) by simp
    moreover obtain keys rest where "zip_js ?cells = keys # rest" "keys \<noteq> []"
      using zip_js_header[of ?cells] cells by blast
    ultimately show ?thesis by simp
  next
    case False
    then have "?cells = map Some hdr # rows" using assms(4) by simp
    then have "map Some hdr \<in> set ?cells" by simp
    then show ?thesis using cells by blast
  qed
  then have hdr: "hdr \<noteq> []" by simp
  have len: "length ?keys = length hdr" by (simp add: header_keys_def length_uniquify)
  have "convert JSON_parse csv opts = convert_table JSON_parse opts (map Some hdr # rows)"
    using assms(1-5) csv by (simp add: convert_def Let_def)
  also have "\<dots> = Inr (build_json JSON_parse opts (header_keys (map the (map Some hdr))) rows)"
    using hdr by (intro convert_table_header) auto
  also have "map the (map Some hdr) = hdr" by (simp add: comp_def)
  also have "build_json JSON_parse opts ?keys rows = Records ?recs"
    using assms(6-8) by (rule build_json_plain)
  finally have conv: "convert JSON_parse csv opts = Inr (Records ?recs)" .
  have n: "length ?recs = length rows" by simp
  have each: "dom (?recs ! l) = set ?keys \<and> card (dom (?recs ! l)) = length hdr \<and>
      (\<forall>i<length hdr. (?recs ! l) (?keys ! i)
          = Some (cell_value JSON_parse opts (clean (cell_at (rows ! l) i))))"
    if l: "l < length rows" for l
  proof -
    have rec: "?recs ! l = record_of JSON_parse opts ?keys (rows ! l)"
      using l by simp
    have d: "dom (?recs ! l) = set ?keys" unfolding rec by (rule record_of_dom)
    have "card (set ?keys) = length ?keys" using assms(7) by (rule distinct_card)
    then have c: "card (dom (?recs ! l)) = length hdr" using d len by simp
    have "\<forall>i<length hdr. (?recs ! l) (?keys ! i)
          = Some (cell_value JSON_parse opts (clean (cell_at (rows ! l) i)))"
      unfolding rec using record_of_at[OF assms(7)] len by simp
    then show ?thesis using d c by blast
  qed
  show "\<exists>recs. convert JSON_parse csv opts = Inr (Records recs) \<and>
           length recs = length rows \<and>
           (\<forall>l<length rows.
              dom (recs ! l) = set (header_keys hdr) \<and>
              card (dom (recs ! l)) = length hdr \<and>
              (\<forall>i<length hdr.
                 (recs ! l) (header_keys hdr ! i)
                   = Some (cell_value JSON_parse opts (clean (cell_at (rows ! l) i)))))"
    by (rule exI[of _ ?recs]) (use conv n each in blast)
next
  show "convert JSON_parse_integers (js ''__proto__,a'' @ LF @ js ''1,2'') default_options
          = Inr (Records [[js ''a'' \<mapsto> JString (js ''2'')]])"
    by (simp add: convert_eval parser_eval uniquify_eval)
qed

theorem array_mode_records_witness:
  "(\<exists>recs. convert JSON_parse_integers (js ''a,b'' @ LF @ js ''1,2'' @ LF @ js ''3'') default_options
             = Inr (Records recs) \<and>
          length recs = 2 \<and>
          card (dom (recs ! 1)) = 2 \<and>
          (recs ! 1) (js ''b'') = Some (JString [])) \<and>
   (\<exists>recs. convert JSON_parse_integers (js ''a,1,3'' @ LF @ js ''b,2,4'')
             (default_options\<lparr>transpose_option := True\<rparr>)
             = Inr (Records recs) \<and>
          length recs = 2 \<and>
          card (dom (recs ! 1)) = 2 \<and>
          (recs ! 1) (js ''b'') = Some (JString (js ''4'')))"
proof (rule conjI)
  let ?csv = "js ''a,b'' @ LF @ js ''1,2'' @ LF @ js ''3''"
  let ?hdr = "[js ''a'', js ''b'']" and ?rows = "[[js ''1'', js ''2''], [js ''3'']]"
  let ?cells = "map (map Some) ?rows"
  have h1: "resolve_separator default_options ?csv = Some [0x2C]"
    by (simp add: resolve_separator_def detectSeparator_def separators_def occurrences_def
          default_options_def LF_def js_Nil js_Cons)
  have h2: "start_rule [0x2C] = Some comma" by (simp add: start_rule_def)
  have h3: "parse ?csv comma = Inr (?hdr # ?rows)" by (simp add: parser_eval)
  have h4: "(if transpose_option default_options then zip_js (map (map Some) (?hdr # ?rows))
             else map (map Some) (?hdr # ?rows)) = map Some ?hdr # ?cells"
    by (simp add: default_options_def)
  have h5: "\<not> returnArray default_options" "\<not> hash default_options"
    by (simp_all add: default_options_def)
  have keys: "header_keys ?hdr = ?hdr"
    by (simp add: header_keys_def clean_def trim_def strip_quotes_def is_white_space_def
          uniquify_eval)
  have h6: "distinct (header_keys ?hdr)" and h7: "js ''__proto__'' \<notin> set (header_keys ?hdr)"
    unfolding keys by (simp_all add: js_Nil js_Cons)
  have v: "cell_value JSON_parse_integers default_options (clean (cell_at (?cells ! 1) 1))
             = JString []"
    by (simp add: cell_value_def cell_at_def clean_def trim_def strip_quotes_def
          default_options_def)
  obtain recs where conv: "convert JSON_parse_integers ?csv default_options = Inr (Records recs)"
    and n: "length recs = length ?cells"
    and each: "\<forall>l<length ?cells.
        dom (recs ! l) = set (header_keys ?hdr) \<and>
        card (dom (recs ! l)) = length ?hdr \<and>
        (\<forall>i<length ?hdr.
           (recs ! l) (header_keys ?hdr ! i)
             = Some (cell_value JSON_parse_integers default_options
                       (clean (cell_at (?cells ! l) i))))"
    using array_mode_records[OF h1 h2 h3 h4 h5 h6 h7, of JSON_parse_integers] by blast
  have l1: "(1::nat) < length ?cells" and i1: "(1::nat) < length ?hdr" by simp_all
  have c: "card (dom (recs ! 1)) = length ?hdr" using each l1 by blast
  have "(recs ! 1) (header_keys ?hdr ! 1)
          = Some (cell_value JSON_parse_integers default_options
                    (clean (cell_at (?cells ! 1) 1)))"
    using each l1 i1 by blast
  then have b: "(recs ! 1) (js ''b'') = Some (JString [])"
    unfolding keys v by simp
  show "\<exists>recs. convert JSON_parse_integers ?csv default_options = Inr (Records recs) \<and>
          length recs = 2 \<and> card (dom (recs ! 1)) = 2 \<and> (recs ! 1) (js ''b'') = Some (JString [])"
    by (rule exI[of _ recs]) (use conv n c b in simp)
next
  let ?csv = "js ''a,1,3'' @ LF @ js ''b,2,4''"
  let ?opts = "default_options\<lparr>transpose_option := True\<rparr>"
  let ?table = "[[js ''a'', js ''1'', js ''3''], [js ''b'', js ''2'', js ''4'']]"
  let ?hdr = "[js ''a'', js ''b'']"
  let ?cells = "[[Some (js ''1''), Some (js ''2'')], [Some (js ''3''), Some (js ''4'')]]"
  have h1: "resolve_separator ?opts ?csv = Some [0x2C]"
    by (simp add: resolve_separator_def detectSeparator_def separators_def occurrences_def
          default_options_def LF_def js_Nil js_Cons)
  have h2: "start_rule [0x2C] = Some comma" by (simp add: start_rule_def)
  have h3: "parse ?csv comma = Inr ?table" by (simp add: parser_eval)
  have h4: "(if transpose_option ?opts then zip_js (map (map Some) ?table)
             else map (map Some) ?table) = map Some ?hdr # ?cells"
    by (simp add: default_options_def zip_js_def longest_def upt_rec)
  have h5: "\<not> returnArray ?opts" "\<not> hash ?opts"
    by (simp_all add: default_options_def)
  have keys: "header_keys ?hdr = ?hdr"
    by (simp add: header_keys_def clean_def trim_def strip_quotes_def is_white_space_def
          uniquify_eval)
  have h6: "distinct (header_keys ?hdr)" and h7: "js ''__proto__'' \<notin> set (header_keys ?hdr)"
    unfolding keys by (simp_all add: js_Nil js_Cons)
  have v: "cell_value JSON_parse_integers ?opts (clean (cell_at (?cells ! 1) 1))
             = JString (js ''4'')"
    by (simp add: cell_value_def cell_at_def clean_def trim_def strip_quotes_def
          is_white_space_def default_options_def js_Nil js_Cons)
  obtain recs where conv: "convert JSON_parse_integers ?csv ?opts = Inr (Records recs)"
    and n: "length recs = length ?cells"
    and each: "\<forall>l<length ?cells.
        dom (recs ! l) = set (header_keys ?hdr) \<and>
        card (dom (recs ! l)) = length ?hdr \<and>
        (\<forall>i<length ?hdr.
           (recs ! l) (header_keys ?hdr ! i)
             = Some (cell_value JSON_parse_integers ?opts (clean (cell_at (?cells ! l) i))))"
    using array_mode_records[OF h1 h2 h3 h4 h5 h6 h7, of JSON_parse_integers] by blast
  have l1: "(1::nat) < length ?cells" and i1: "(1::nat) < length ?hdr" by simp_all
  have c: "card (dom (recs ! 1)) = length ?hdr" using each l1 by blast
  have "(recs ! 1) (header_keys ?hdr ! 1)
          = Some (cell_value JSON_parse_integers ?opts (clean (cell_at (?cells ! 1) 1)))"
    using each l1 i1 by blast
  then have b: "(recs ! 1) (js ''b'') = Some (JString (js ''4''))"
    unfolding keys v by simp
  show "\<exists>recs. convert JSON_parse_integers ?csv ?opts = Inr (Records recs) \<and>
          length recs = 2 \<and> card (dom (recs ! 1)) = 2 \<and>
          (recs ! 1) (js ''b'') = Some (JString (js ''4''))"
    by (rule exI[of _ recs]) (use conv n c b in simp)
qed

text \<open>
  The input \<open>__proto__,a\<close> / \<open>1,2\<close> is rectangular, with two header columns that are
  distinct after de-duplication and one data row; its Record has one key, not two.
\<close>

theorem array_mode_records_counterexample:
  "parse (js ''__proto__,a'' @ LF @ js ''1,2'') comma
     = Inr [[js ''__proto__'', js ''a''], [js ''1'', js ''2'']] \<and>
   distinct (header_keys [js ''__proto__'', js ''a'']) \<and>
   length (header_keys [js ''__proto__'', js ''a'']) = 2 \<and>
   convert JSON_parse_integers (js ''__proto__,a'' @ LF @ js ''1,2'') default_options
     = Inr (Records [[js ''a'' \<mapsto> JString (js ''2'')]]) \<and>
   card (dom [js ''a'' \<mapsto> JString (js ''2'')]) = 1"
  by (simp add: convert_eval parser_eval uniquify_eval)

end
